theory Spec2Isabelle
  imports Complex_Main
begin

section \<open>Data model\<close>

text \<open>
  Vertex and face identifiers are the integer keys the mesh hands out. A position is a
  triple of coordinates; the coordinates are idealised as real numbers.
\<close>

type_synonym key = nat
type_synonym fkey = nat
type_synonym point = "real \<times> real \<times> real"

text \<open>
  The exceptions that the modelled code can raise. \<open>ValueError\<close>, \<open>KeyError\<close>,
  \<open>IndexError\<close>, \<open>ZeroDivisionError\<close>, \<open>TypeError\<close>, \<open>AttributeError\<close> and \<open>NameError\<close>
  are the Python exceptions of the sources; \<open>InvalidTopology\<close> is the failure the specification
  names for \<open>add_face\<close>.
\<close>

datatype error =
  ValueError | KeyError | IndexError | ZeroDivisionError | TypeError | AttributeError | NameError
  | InvalidTopology

text \<open>
  The mesh: the vertex table, the face table (face key to face loop), and the half-edge
  index. \<open>halfedge m (u, v)\<close> is \<open>None\<close> when the index has no entry for \<open>(u, v)\<close>
  (Python: \<open>KeyError\<close>), \<open>Some None\<close> when the entry is the no-face sentinel and
  \<open>Some (Some f)\<close> when the entry is the face \<open>f\<close>. The two counters are the identifier
  registry: the next vertex key and the next face key to hand out.
\<close>

record mesh =
  vertex :: "key \<rightharpoonup> point"
  face :: "fkey \<rightharpoonup> key list"
  halfedge :: "key \<times> key \<rightharpoonup> fkey option"
  next_key :: key
  next_fkey :: fkey

text \<open>
  An operation on the mesh mutates it in place and either returns or raises. The model
  returns the outcome together with the mesh as it is when the operation ends, so that a
  raise after a mutation keeps the mutation, as in Python.
\<close>

type_synonym 'a outcome = "(error + 'a) \<times> mesh"

subsection \<open>Python list primitives\<close>

text \<open>\<open>xs.index(x)\<close>: the first position of \<open>x\<close>; the caller checks membership.\<close>

fun index :: "'a list \<Rightarrow> 'a \<Rightarrow> nat" where
  "index [] x = 0"
| "index (y # ys) x = (if x = y then 0 else Suc (index ys x))"

text \<open>\<open>xs.index(x)\<close> with its \<open>ValueError\<close> when \<open>x\<close> is not in the list.\<close>

definition py_index :: "'a list \<Rightarrow> 'a \<Rightarrow> error + nat" where
  "py_index xs x = (if x \<in> set xs then Inr (index xs x) else Inl ValueError)"

text \<open>\<open>xs.insert(j, w)\<close> for \<open>0 \<le> j\<close>: past the end it appends.\<close>

definition py_insert :: "'a list \<Rightarrow> nat \<Rightarrow> 'a \<Rightarrow> 'a list" where
  "py_insert xs j w = take j xs @ [w] @ drop j xs"

text \<open>\<open>xs[i:j]\<close> for \<open>0 \<le> i\<close>, \<open>0 \<le> j\<close>.\<close>

definition slice :: "'a list \<Rightarrow> nat \<Rightarrow> nat \<Rightarrow> 'a list" where
  "slice xs i j = drop i (take j xs)"

text \<open>
  \<open>xs[i - 1]\<close> for a position \<open>i\<close> of a non-empty list: index \<open>-1\<close> is the last entry.
\<close>

definition py_pred :: "'a list \<Rightarrow> nat \<Rightarrow> 'a" where
  "py_pred xs i = (if i = 0 then last xs else xs ! (i - 1))"

subsection \<open>Primitives of the mesh class\<close>

text \<open>
  Modelled from the spec: \<open>Mesh.add_vertex\<close> (the mesh class is not among the sources).
  It inserts a new vertex under a fresh identifier and has no effect beyond the table
  insertion and the registry. Real coordinates are always finite, so the failure for
  non-finite components has no branch here.
\<close>

definition add_vertex :: "mesh \<Rightarrow> point \<Rightarrow> key \<times> mesh" where
  "add_vertex m p =
     (next_key m, m\<lparr>vertex := (vertex m)(next_key m \<mapsto> p), next_key := Suc (next_key m)\<rparr>)"

text \<open>
  Modelled from the spec: \<open>Mesh.edge_point\<close>, the point at parameter \<open>t\<close> along the
  edge from \<open>u\<close> to \<open>v\<close>, by linear interpolation. A vertex that is not in the vertex
  table is a \<open>KeyError\<close>.
\<close>

definition lerp :: "point \<Rightarrow> point \<Rightarrow> real \<Rightarrow> point" where
  "lerp a b t =
     (case a of (ax, ay, az) \<Rightarrow> case b of (bx, by, bz) \<Rightarrow>
        (ax + t * (bx - ax), ay + t * (by - ay), az + t * (bz - az)))"

definition edge_point :: "mesh \<Rightarrow> key \<Rightarrow> key \<Rightarrow> real \<Rightarrow> error + point" where
  "edge_point m u v t =
     (case vertex m u of None \<Rightarrow> Inl KeyError
      | Some a \<Rightarrow> (case vertex m v of None \<Rightarrow> Inl KeyError
      | Some b \<Rightarrow> Inr (lerp a b t)))"

text \<open>The consecutive pairs of a face loop, the closing pair included.\<close>

definition loop_pairs :: "key list \<Rightarrow> (key \<times> key) list" where
  "loop_pairs vs = zip vs (rotate1 vs)"

text \<open>
  Modelled from the spec: \<open>Mesh.add_face\<close> (the mesh class is not among the sources).
  It requires every vertex of the loop to exist and the loop to have at least three
  distinct entries, registers the loop under a fresh face identifier and sets the
  half-edge entry of every consecutive pair to that identifier. An entry that another
  face already claims is overwritten: \<open>mesh_split_face\<close> and \<open>trimesh_split_edge\<close> add the
  replacement faces while the face they replace is still registered, so the rejecting
  policy, which the spec leaves as a choice, would make both fail on every input.
\<close>

definition add_face :: "mesh \<Rightarrow> key list \<Rightarrow> fkey outcome" where
  "add_face m vs =
     (if list_all (\<lambda>k. vertex m k \<noteq> None) vs \<and> 3 \<le> length (remdups vs)
      then (Inr (next_fkey m),
            m\<lparr>face := (face m)(next_fkey m \<mapsto> vs),
              halfedge := fold (\<lambda>e h. h(e \<mapsto> Some (next_fkey m))) (loop_pairs vs) (halfedge m),
              next_fkey := Suc (next_fkey m)\<rparr>)
      else (Inl InvalidTopology, m))"

section \<open>Topological editor (operations/split.py)\<close>

text \<open>\<open>self.halfedge[u][v] = f\<close>, \<open>del self.halfedge[u][v]\<close> and \<open>del self.face[f]\<close>.\<close>

definition set_halfedge :: "mesh \<Rightarrow> key \<Rightarrow> key \<Rightarrow> fkey option \<Rightarrow> mesh" where
  "set_halfedge m u v f = m\<lparr>halfedge := (halfedge m)((u, v) \<mapsto> f)\<rparr>"

definition del_halfedge :: "mesh \<Rightarrow> key \<Rightarrow> key \<Rightarrow> error + mesh" where
  "del_halfedge m u v =
     (if halfedge m (u, v) = None then Inl KeyError
      else Inr (m\<lparr>halfedge := (halfedge m)((u, v) := None)\<rparr>))"

definition del_face :: "mesh \<Rightarrow> fkey \<Rightarrow> error + mesh" where
  "del_face m f =
     (if face m f = None then Inl KeyError
      else Inr (m\<lparr>face := (face m)(f := None)\<rparr>))"

text \<open>
  Lines 70 to 73 and 80 to 83 of \<open>mesh_split_edge\<close>: when the side has a face, the new
  vertex \<open>w\<close> is inserted into its loop at the position of \<open>x\<close>. A face key that is not
  in the face table is a \<open>KeyError\<close>, a loop without \<open>x\<close> a \<open>ValueError\<close>.
\<close>

definition splice_loop :: "mesh \<Rightarrow> fkey option \<Rightarrow> key \<Rightarrow> key \<Rightarrow> error + mesh" where
  "splice_loop m fk x w =
     (case fk of None \<Rightarrow> Inr m
      | Some f \<Rightarrow> (case face m f of None \<Rightarrow> Inl KeyError
      | Some loop \<Rightarrow> (case py_index loop x of Inl e \<Rightarrow> Inl e
      | Inr j \<Rightarrow> Inr (m\<lparr>face := (face m)(f \<mapsto> py_insert loop j w)\<rparr>))))"

text \<open>
  Lines 65 to 73 of \<open>mesh_split_edge\<close> for the side \<open>(u, v)\<close>, and lines 75 to 83 for the
  side \<open>(v, u)\<close>: the two new half-edges take the side's face, the old half-edge is
  deleted, and the face loop is spliced.
\<close>

definition split_side :: "mesh \<Rightarrow> fkey option \<Rightarrow> key \<Rightarrow> key \<Rightarrow> key \<Rightarrow> unit outcome" where
  "split_side m fk u v w =
     (let m1 = set_halfedge (set_halfedge m u w fk) w v fk
      in case del_halfedge m1 u v of Inl e \<Rightarrow> (Inl e, m1)
         | Inr m2 \<Rightarrow> (case splice_loop m2 fk v w of Inl e \<Rightarrow> (Inl e, m2)
         | Inr m3 \<Rightarrow> (Inr (), m3)))"

text \<open>
  \<open>mesh_split_edge(self, u, v, t, allow_boundary)\<close>. The outcome \<open>Inr None\<close> is the bare
  \<open>return\<close> of the boundary skip, \<open>Inr (Some w)\<close> the key of the inserted vertex.
\<close>

definition mesh_split_edge :: "mesh \<Rightarrow> key \<Rightarrow> key \<Rightarrow> real \<Rightarrow> bool \<Rightarrow> key option outcome" where
  "mesh_split_edge m u v t allow_boundary =
     (if t \<le> 0 then (Inl ValueError, m)
      else if t \<ge> 1 then (Inl ValueError, m)
      else case halfedge m (u, v) of None \<Rightarrow> (Inl KeyError, m)
      | Some fkey_uv \<Rightarrow> (case halfedge m (v, u) of None \<Rightarrow> (Inl KeyError, m)
      | Some fkey_vu \<Rightarrow>
          if \<not> allow_boundary \<and> (fkey_uv = None \<or> fkey_vu = None) then (Inr None, m)
          else (case edge_point m u v t of Inl e \<Rightarrow> (Inl e, m)
          | Inr p \<Rightarrow>
              (case add_vertex m p of (w, m1) \<Rightarrow>
                 (case split_side m1 fkey_uv u v w of (Inl e, m2) \<Rightarrow> (Inl e, m2)
                  | (Inr _, m2) \<Rightarrow>
                 (case split_side m2 fkey_vu v u w of (Inl e, m3) \<Rightarrow> (Inl e, m3)
                  | (Inr _, m3) \<Rightarrow> (Inr (Some w), m3)))))))"

text \<open>
  Lines 153 to 164 of \<open>trimesh_split_edge\<close> for the side \<open>(u, v)\<close>, and lines 166 to 177
  for the side \<open>(v, u)\<close>. Without a face the side gets two boundary half-edges. With a
  face, \<open>o\<close> is the loop entry before \<open>u\<close>, the triangles \<open>[u, w, o]\<close> and \<open>[w, v, o]\<close> are
  added, and the old half-edge and the old face are deleted.
\<close>

definition trimesh_side :: "mesh \<Rightarrow> fkey option \<Rightarrow> key \<Rightarrow> key \<Rightarrow> key \<Rightarrow> unit outcome" where
  "trimesh_side m fk u v w =
     (case fk of
        None \<Rightarrow>
          (let m1 = set_halfedge (set_halfedge m u w None) w v None
           in case del_halfedge m1 u v of Inl e \<Rightarrow> (Inl e, m1) | Inr m2 \<Rightarrow> (Inr (), m2))
      | Some f \<Rightarrow>
          (case face m f of None \<Rightarrow> (Inl KeyError, m)
           | Some loop \<Rightarrow> (case py_index loop u of Inl e \<Rightarrow> (Inl e, m)
           | Inr i \<Rightarrow>
               let opp = py_pred loop i
               in (case add_face m [u, w, opp] of (Inl e, m1) \<Rightarrow> (Inl e, m1)
                   | (Inr _, m1) \<Rightarrow> (case add_face m1 [w, v, opp] of (Inl e, m2) \<Rightarrow> (Inl e, m2)
                   | (Inr _, m2) \<Rightarrow> (case del_halfedge m2 u v of Inl e \<Rightarrow> (Inl e, m2)
                   | Inr m3 \<Rightarrow> (case del_face m3 f of Inl e \<Rightarrow> (Inl e, m3)
                   | Inr m4 \<Rightarrow> (Inr (), m4))))))))"

text \<open>\<open>trimesh_split_edge(self, u, v, t, allow_boundary)\<close>.\<close>

definition trimesh_split_edge :: "mesh \<Rightarrow> key \<Rightarrow> key \<Rightarrow> real \<Rightarrow> bool \<Rightarrow> key option outcome" where
  "trimesh_split_edge m u v t allow_boundary =
     (if t \<le> 0 then (Inl ValueError, m)
      else if t \<ge> 1 then (Inl ValueError, m)
      else case halfedge m (u, v) of None \<Rightarrow> (Inl KeyError, m)
      | Some fkey_uv \<Rightarrow> (case halfedge m (v, u) of None \<Rightarrow> (Inl KeyError, m)
      | Some fkey_vu \<Rightarrow>
          if \<not> allow_boundary \<and> (fkey_uv = None \<or> fkey_vu = None) then (Inr None, m)
          else (case edge_point m u v t of Inl e \<Rightarrow> (Inl e, m)
          | Inr p \<Rightarrow>
              (case add_vertex m p of (w, m1) \<Rightarrow>
                 (case trimesh_side m1 fkey_uv u v w of (Inl e, m2) \<Rightarrow> (Inl e, m2)
                  | (Inr _, m2) \<Rightarrow>
                 (case trimesh_side m2 fkey_vu v u w of (Inl e, m3) \<Rightarrow> (Inl e, m3)
                  | (Inr _, m3) \<Rightarrow> (Inr (Some w), m3)))))))"

text \<open>
  Lines 197 to 208 of \<open>mesh_split_face\<close>: the neighbour check on the positions \<open>i\<close> of
  \<open>u\<close> and \<open>j\<close> of \<open>v\<close>, and the two slices of the loop.
\<close>

definition split_loops :: "key list \<Rightarrow> nat \<Rightarrow> nat \<Rightarrow> error + key list \<times> key list" where
  "split_loops loop i j =
     (if i + 1 = j then Inl ValueError
      else if j > i then Inr (slice loop i (j + 1), drop j loop @ take (i + 1) loop)
      else Inr (drop i loop @ take (j + 1) loop, slice loop j (i + 1)))"

text \<open>\<open>mesh_split_face(self, fkey, u, v)\<close>.\<close>

definition mesh_split_face :: "mesh \<Rightarrow> fkey \<Rightarrow> key \<Rightarrow> key \<Rightarrow> (fkey \<times> fkey) outcome" where
  "mesh_split_face m fk u v =
     (case face m fk of None \<Rightarrow> (Inl KeyError, m)
      | Some loop \<Rightarrow>
          if u \<notin> set loop \<or> v \<notin> set loop then (Inl ValueError, m)
          else (case split_loops loop (index loop u) (index loop v) of Inl e \<Rightarrow> (Inl e, m)
          | Inr (f, g) \<Rightarrow>
              (case add_face m f of (Inl e, m1) \<Rightarrow> (Inl e, m1)
               | (Inr fk1, m1) \<Rightarrow> (case add_face m1 g of (Inl e, m2) \<Rightarrow> (Inl e, m2)
               | (Inr fk2, m2) \<Rightarrow> (case del_face m2 fk of Inl e \<Rightarrow> (Inl e, m2)
               | Inr m3 \<Rightarrow> (Inr (fk1, fk2), m3))))))"

section \<open>Traversal and connectivity (components.py)\<close>

text \<open>
  An adjacency dictionary maps a vertex to the sequence of its neighbours. It is an
  association list, in the iteration order of the dictionary.
\<close>

type_synonym adjacency = "(key \<times> key list) list"

text \<open>
  Modelled from the spec: \<open>breadth_first_traverse\<close> (\<open>compas.topology\<close> is not among the
  sources), the standard breadth-first traversal with a first-in-first-out frontier
  \<open>tovisit\<close> and a visited set that prevents revisits. The visited set is kept as the list
  of the visited vertices in the order of their discovery. \<open>visit_neighbours\<close> is the
  loop over the neighbours of the node taken from the frontier; a node that is not a key of
  the adjacency is a \<open>KeyError\<close>.
\<close>

fun visit_neighbours :: "key list \<Rightarrow> key list \<times> key list \<Rightarrow> key list \<times> key list" where
  "visit_neighbours [] (tovisit, visited) = (tovisit, visited)"
| "visit_neighbours (nbr # nbrs) (tovisit, visited) =
     (if nbr \<in> set visited then visit_neighbours nbrs (tovisit, visited)
      else visit_neighbours nbrs (tovisit @ [nbr], visited @ [nbr]))"

function bfs_loop :: "adjacency \<Rightarrow> key list \<Rightarrow> key list \<Rightarrow> error + key list" where
  "bfs_loop adj [] visited = Inr visited"
| "bfs_loop adj (node # tovisit) visited =
     (case map_of adj node of None \<Rightarrow> Inl KeyError
      | Some nbrs \<Rightarrow>
          (case visit_neighbours nbrs (tovisit, visited) of
             (tovisit', visited') \<Rightarrow> bfs_loop adj tovisit' visited'))"
  by pat_completeness auto
termination
proof (relation "measures [\<lambda>(adj, tovisit, visited). card (\<Union>(set ` snd ` set adj) - set visited),
                           \<lambda>(adj, tovisit, visited). length tovisit]")
  show "wf (measures [\<lambda>(adj, tovisit, visited). card (\<Union>(set ` snd ` set adj) - set visited),
                           \<lambda>(adj :: adjacency, tovisit :: key list, visited :: key list). length tovisit])"
    by simp
next
  fix adj :: adjacency and node tovisit visited nbrs tovisit' visited'
  assume look: "map_of adj node = Some nbrs"
    and xx: "(tovisit', visited') = visit_neighbours nbrs (tovisit, visited)"
  have vn: "\<exists>ns. visit_neighbours ms (q, vis) = (q @ ns, vis @ ns) \<and> set ns = set ms - set vis"
    for ms q vis
  proof (induction ms arbitrary: q vis)
    case Nil
    show ?case by simp
  next
    case (Cons n ms)
    show ?case
    proof (cases "n \<in> set vis")
      case True
      with Cons [of q vis] show ?thesis by auto
    next
      case False
      from Cons [of "q @ [n]" "vis @ [n]"] obtain ns
        where "visit_neighbours ms (q @ [n], vis @ [n]) = ((q @ [n]) @ ns, (vis @ [n]) @ ns)"
          and "set ns = set ms - set (vis @ [n])" by blast
      with False have "visit_neighbours (n # ms) (q, vis) = (q @ (n # ns), vis @ (n # ns))
          \<and> set (n # ns) = set (n # ms) - set vis" by auto
      then show ?thesis by blast
    qed
  qed
  from vn [of nbrs tovisit visited] xx obtain ns
    where q': "tovisit' = tovisit @ ns" and v': "visited' = visited @ ns"
      and ns: "set ns = set nbrs - set visited" by auto
  let ?U = "\<Union>(set ` snd ` set adj)"
  have fin: "finite ?U" by simp
  have sub: "set nbrs \<subseteq> ?U" using map_of_SomeD [OF look] by force
  show "((adj, tovisit', visited'), (adj, node # tovisit, visited))
        \<in> measures [\<lambda>(adj, tovisit, visited). card (\<Union>(set ` snd ` set adj) - set visited),
                           \<lambda>(adj, tovisit, visited). length tovisit]"
  proof (cases "ns = []")
    case True
    then show ?thesis by (simp add: q' v')
  next
    case False
    then obtain n where n: "n \<in> set ns" by (cases ns) auto
    have "?U - set visited' \<subset> ?U - set visited"
      using n ns sub by (auto simp: v')
    then have "card (?U - set visited') < card (?U - set visited)"
      using fin by (intro psubset_card_mono) auto
    then show ?thesis by simp
  qed
qed

definition breadth_first_traverse :: "adjacency \<Rightarrow> key \<Rightarrow> error + key list" where
  "breadth_first_traverse adj rootv = bfs_loop adj [rootv] [rootv]"

text \<open>
  The \<open>while\<close> loop of \<open>connected_components\<close>. \<open>tovisit.pop()\<close> takes an arbitrary
  element of the set: the set is a list without repetitions and the parameter \<open>pop\<close> says
  which position is taken. \<open>list(visited)\<close> is the list of the visited vertices.
\<close>

function components_loop ::
  "(key list \<Rightarrow> nat) \<Rightarrow> adjacency \<Rightarrow> key list \<Rightarrow> key list list \<Rightarrow> error + key list list" where
  "components_loop pop adj tovisit components =
     (if tovisit = [] then Inr components
      else let rootv = tovisit ! (pop tovisit mod length tovisit)
           in case breadth_first_traverse adj rootv of Inl e \<Rightarrow> Inl e
              | Inr visited \<Rightarrow>
                  components_loop pop adj
                    (filter (\<lambda>x. x \<notin> set visited) (removeAll rootv tovisit))
                    (components @ [visited]))"
  by pat_completeness auto
termination
proof (relation "measure (\<lambda>(pop, adj, tovisit, components). length tovisit)")
  fix pop :: "key list \<Rightarrow> nat" and adj :: adjacency and tovisit :: "key list"
    and components :: "key list list" and rootv visited
  assume ne: "tovisit \<noteq> []" and rootv: "rootv = tovisit ! (pop tovisit mod length tovisit)"
  have "rootv \<in> set tovisit" using ne by (simp add: rootv)
  then have "length (removeAll rootv tovisit) < length tovisit"
    by (rule length_removeAll_less)
  moreover have "length (filter (\<lambda>x. x \<notin> set visited) (removeAll rootv tovisit))
      \<le> length (removeAll rootv tovisit)" by (rule length_filter_le)
  ultimately have "length (filter (\<lambda>x. x \<notin> set visited) (removeAll rootv tovisit))
      < length tovisit" by linarith
  then show "((pop, adj, filter (\<lambda>x. x \<notin> set visited) (removeAll rootv tovisit),
      components @ [visited]), (pop, adj, tovisit, components))
      \<in> measure (\<lambda>(pop, adj, tovisit, components). length tovisit)" by simp
qed simp

declare components_loop.simps [simp del]

text \<open>\<open>connected_components(adjacency)\<close>; \<open>set(adjacency)\<close> is the set of the keys.\<close>

definition connected_components :: "(key list \<Rightarrow> nat) \<Rightarrow> adjacency \<Rightarrow> error + key list list" where
  "connected_components pop adj = components_loop pop adj (remdups (map fst adj)) []"


text \<open>
  The connectivity predicates read a mesh or a network through its vertex table, of which
  only the keys matter, and its adjacency dictionary.
\<close>

record mesh_graph =
  mesh_vertex :: "key list"
  mesh_adjacency :: adjacency

record network =
  network_vertex :: "key list"
  network_adjacency :: adjacency

text \<open>
  Modelled from the spec: \<open>get_any_vertex\<close> and \<open>number_of_vertices\<close> (the mesh and
  network classes are not among the sources): any one vertex of the vertex table, chosen
  as \<open>pop\<close> says, and the number of its keys.
\<close>

definition get_any_vertex :: "(key list \<Rightarrow> nat) \<Rightarrow> key list \<Rightarrow> key" where
  "get_any_vertex pop keys = keys ! (pop keys mod length keys)"

definition number_of_vertices :: "key list \<Rightarrow> nat" where
  "number_of_vertices keys = length keys"

text \<open>
  \<open>mesh_is_connected(mesh)\<close> and \<open>network_is_connected(network)\<close>. \<open>len(nodes)\<close> is the
  number of visited vertices, which the visited list holds once each.
\<close>

definition mesh_is_connected :: "(key list \<Rightarrow> nat) \<Rightarrow> mesh_graph \<Rightarrow> error + bool" where
  "mesh_is_connected pop mesh =
     (if mesh_vertex mesh = [] then Inr False
      else case breadth_first_traverse (mesh_adjacency mesh)
                  (get_any_vertex pop (mesh_vertex mesh)) of
             Inl e \<Rightarrow> Inl e
           | Inr nodes \<Rightarrow> Inr (length nodes = number_of_vertices (mesh_vertex mesh)))"

definition network_is_connected :: "(key list \<Rightarrow> nat) \<Rightarrow> network \<Rightarrow> error + bool" where
  "network_is_connected pop network =
     (if network_vertex network = [] then Inr False
      else case breadth_first_traverse (network_adjacency network)
                  (get_any_vertex pop (network_vertex network)) of
             Inl e \<Rightarrow> Inl e
           | Inr nodes \<Rightarrow> Inr (length nodes = number_of_vertices (network_vertex network)))"

section \<open>Operator builder (mesh/matrices.py)\<close>

text \<open>
  Modelled from the spec: \<open>Mesh.key_index\<close> (the mesh class is not among the sources):
  the vertices in their iteration order, numbered from 0.
\<close>

definition key_index :: "key list \<Rightarrow> key \<rightharpoonup> nat" where
  "key_index keys = map_of (zip keys [0..<length keys])"

text \<open>
  Modelled from the spec: \<open>Mesh.vertex_neighbors\<close> (the mesh class is not among the
  sources): the neighbours of a vertex, as the adjacency view holds them; a key without
  an entry is a \<open>KeyError\<close>.
\<close>

definition vertex_neighbors :: "mesh_graph \<Rightarrow> key \<Rightarrow> error + key list" where
  "vertex_neighbors mesh key =
     (case map_of (mesh_adjacency mesh) key of None \<Rightarrow> Inl KeyError | Some nbrs \<Rightarrow> Inr nbrs)"

text \<open>
  The three lists \<open>data\<close>, \<open>rows\<close> and \<open>cols\<close> that the functions build and hand to
  \<open>coo_matrix\<close>. The entries are idealised as real numbers.
\<close>

type_synonym triplets = "real list \<times> nat list \<times> nat list"

text \<open>
  \<open>mesh_laplacian_matrix(mesh)\<close>: \<open>laplacian_rows\<close> is the loop over the vertices and
  \<open>laplacian_nbrs\<close> the loop over the neighbours of one vertex. The division
  \<open>- 1. / w\<close> by the number of neighbours raises \<open>ZeroDivisionError\<close> when \<open>w\<close> is zero.
  After the loops the triplets go to \<open>coo_matrix((data, (rows, cols)))\<close>, the constructor
  of the sparse-matrix library: it is the parameter \<open>coo\<close>, which returns a matrix or
  raises. The last line is \<open>return _return_matrix(L, rtype)\<close>: the module neither defines
  nor imports the name \<open>_return_matrix\<close>, so evaluating the call raises \<open>NameError\<close>,
  whatever \<open>L\<close> and \<open>rtype\<close> are.
\<close>

fun laplacian_nbrs ::
  "(key \<rightharpoonup> nat) \<Rightarrow> real \<Rightarrow> nat \<Rightarrow> key list \<Rightarrow> triplets \<Rightarrow> error + triplets" where
  "laplacian_nbrs ki d r [] t = Inr t"
| "laplacian_nbrs ki d r (nbr # nbrs) (data, rows, cols) =
     (case ki nbr of None \<Rightarrow> Inl KeyError
      | Some c \<Rightarrow> laplacian_nbrs ki d r nbrs (data @ [d], rows @ [r], cols @ [c]))"

fun laplacian_rows ::
  "mesh_graph \<Rightarrow> (key \<rightharpoonup> nat) \<Rightarrow> key list \<Rightarrow> triplets \<Rightarrow> error + triplets" where
  "laplacian_rows mesh ki [] t = Inr t"
| "laplacian_rows mesh ki (key # keys) (data, rows, cols) =
     (case ki key of None \<Rightarrow> Inl KeyError
      | Some r \<Rightarrow>
          (case vertex_neighbors mesh key of Inl e \<Rightarrow> Inl e
           | Inr nbrs \<Rightarrow>
               let w = length nbrs
               in if w = 0 then Inl ZeroDivisionError
                  else (case laplacian_nbrs ki (- 1 / real w) r nbrs
                               (data @ [1], rows @ [r], cols @ [r]) of
                          Inl e \<Rightarrow> Inl e
                        | Inr t \<Rightarrow> laplacian_rows mesh ki keys t)))"

definition return_matrix :: "'m \<Rightarrow> error + 'm" where
  "return_matrix L = Inl NameError"

definition mesh_laplacian_matrix ::
  "(triplets \<Rightarrow> error + 'm) \<Rightarrow> mesh_graph \<Rightarrow> error + 'm" where
  "mesh_laplacian_matrix coo mesh =
     (case laplacian_rows mesh (key_index (mesh_vertex mesh)) (mesh_vertex mesh) ([], [], []) of
        Inl e \<Rightarrow> Inl e
      | Inr t \<Rightarrow> (case coo t of Inl e \<Rightarrow> Inl e | Inr L \<Rightarrow> return_matrix L))"

text \<open>
  Modelled from the spec: the helpers \<open>dot_vectors\<close>, \<open>cross_vectors\<close> and
  \<open>length_vector\<close> of \<open>compas.geometry\<close> and \<open>Mesh.edge_vector\<close> (not among the sources),
  which the cotangent formula of the spec takes as the dot product, the cross product, the
  Euclidean length and the vector from one vertex to another.
\<close>

definition dot_vectors :: "point \<Rightarrow> point \<Rightarrow> real" where
  "dot_vectors a b =
     (case a of (ax, ay, az) \<Rightarrow> case b of (bx, by, bz) \<Rightarrow> ax * bx + ay * by + az * bz)"

definition cross_vectors :: "point \<Rightarrow> point \<Rightarrow> point" where
  "cross_vectors a b =
     (case a of (ax, ay, az) \<Rightarrow> case b of (bx, by, bz) \<Rightarrow>
        (ay * bz - az * by, az * bx - ax * bz, ax * by - ay * bx))"

definition length_vector :: "point \<Rightarrow> real" where
  "length_vector a = sqrt (dot_vectors a a)"

definition edge_vector :: "mesh \<Rightarrow> key \<Rightarrow> key \<Rightarrow> error + point" where
  "edge_vector m u v =
     (case vertex m u of None \<Rightarrow> Inl KeyError
      | Some a \<Rightarrow> (case vertex m v of None \<Rightarrow> Inl KeyError
      | Some b \<Rightarrow> (case a of (ax, ay, az) \<Rightarrow> case b of (bx, by, bz) \<Rightarrow>
          Inr (bx - ax, by - ay, bz - az))))"

text \<open>
  \<open>trimesh_edge_cotangent(mesh, u, v)\<close> has three positional parameters. The model takes
  the list of the arguments of a call, so that a call with another number of arguments is
  the \<open>TypeError\<close> that Python raises before the body runs. In the body,
  \<open>mesh.face[fkey][v]\<close> indexes the face loop, a list, with the vertex key \<open>v\<close>, and the
  division by the length of the cross product raises \<open>ZeroDivisionError\<close> when it is zero.
\<close>

datatype arg = MeshArg mesh | KeyArg key

definition trimesh_edge_cotangent :: "arg list \<Rightarrow> error + real" where
  "trimesh_edge_cotangent args =
     (case args of
        [MeshArg mesh, KeyArg u, KeyArg v] \<Rightarrow>
          (case halfedge mesh (u, v) of None \<Rightarrow> Inl KeyError
           | Some None \<Rightarrow> Inr 0
           | Some (Some fkey) \<Rightarrow>
               (case face mesh fkey of None \<Rightarrow> Inl KeyError
                | Some loop \<Rightarrow>
                    if v < length loop
                    then (let w = loop ! v
                          in case edge_vector mesh w u of Inl e \<Rightarrow> Inl e
                             | Inr wu \<Rightarrow> (case edge_vector mesh w v of Inl e \<Rightarrow> Inl e
                             | Inr wv \<Rightarrow>
                                 if length_vector (cross_vectors wu wv) = 0
                                 then Inl ZeroDivisionError
                                 else Inr (dot_vectors wu wv / length_vector (cross_vectors wu wv))))
                    else Inl IndexError))
      | [_, _, _] \<Rightarrow> Inl AttributeError
      | _ \<Rightarrow> Inl TypeError)"

text \<open>
  \<open>trimesh_edge_cotangents(mesh, u, v)\<close>: both calls pass two arguments,
  \<open>trimesh_edge_cotangent(u, v)\<close> and \<open>trimesh_edge_cotangent(v, u)\<close>.
\<close>

definition trimesh_edge_cotangents :: "mesh \<Rightarrow> key \<Rightarrow> key \<Rightarrow> error + real \<times> real" where
  "trimesh_edge_cotangents mesh u v =
     (case trimesh_edge_cotangent [KeyArg u, KeyArg v] of Inl e \<Rightarrow> Inl e
      | Inr a \<Rightarrow> (case trimesh_edge_cotangent [KeyArg v, KeyArg u] of Inl e \<Rightarrow> Inl e
      | Inr b \<Rightarrow> Inr (a, b)))"

text \<open>
  \<open>trimesh_cotangent_laplacian_matrix(mesh)\<close>. The vertex keys in iteration order and the
  edges, as \<open>mesh.vertices()\<close> and \<open>mesh.edges()\<close> yield them, are parameters (the mesh
  class is not among the sources). \<open>cotangent_edges\<close> is the loop over the edges.
  \<open>coo_matrix\<close> is the dense \<open>n\<close> by \<open>n\<close> matrix of the triplets, entries with the same
  position added up; \<open>subtract_row_sums\<close> is \<open>L - spdiags(L * ones(n), 0, n, n)\<close>.
\<close>

fun cotangent_edges ::
  "mesh \<Rightarrow> (key \<rightharpoonup> nat) \<Rightarrow> (key \<times> key) list \<Rightarrow> triplets \<Rightarrow> error + triplets" where
  "cotangent_edges mesh ki [] t = Inr t"
| "cotangent_edges mesh ki ((u, v) # es) (data, rows, cols) =
     (case trimesh_edge_cotangents mesh u v of Inl e \<Rightarrow> Inl e
      | Inr (a, b) \<Rightarrow>
          (case ki u of None \<Rightarrow> Inl KeyError
           | Some i \<Rightarrow> (case ki v of None \<Rightarrow> Inl KeyError
           | Some j \<Rightarrow>
               cotangent_edges mesh ki es
                 (data @ [0.5 * a, 0.5 * b], rows @ [i, j], cols @ [j, i]))))"

definition coo_matrix :: "nat \<Rightarrow> triplets \<Rightarrow> real list list" where
  "coo_matrix n t =
     (case t of (data, rows, cols) \<Rightarrow>
        map (\<lambda>i. map (\<lambda>j. sum_list (map fst (filter (\<lambda>(d, r, c). r = i \<and> c = j)
                                           (zip data (zip rows cols)))))
                   [0..<n])
            [0..<n])"

definition subtract_row_sums :: "real list list \<Rightarrow> real list list" where
  "subtract_row_sums L =
     map (\<lambda>(i, row). map (\<lambda>(j, x). if i = j then x - sum_list row else x)
                          (zip [0..<length row] row))
         (zip [0..<length L] L)"

definition trimesh_cotangent_laplacian_matrix ::
  "mesh \<Rightarrow> key list \<Rightarrow> (key \<times> key) list \<Rightarrow> error + real list list" where
  "trimesh_cotangent_laplacian_matrix mesh vertices edges =
     (case cotangent_edges mesh (key_index vertices) edges ([], [], []) of Inl e \<Rightarrow> Inl e
      | Inr t \<Rightarrow> Inr (subtract_row_sums (coo_matrix (number_of_vertices vertices) t)))"

section \<open>Notions of the specification\<close>

text \<open>
  Two vertices are adjacent in a cyclic loop when they form a consecutive pair of it, in
  either order, the pair of the last and the first entry included. The sub-loop from \<open>a\<close>
  to \<open>b\<close> is what is met when walking the cyclic loop from \<open>a\<close> up to and including
  \<open>b\<close>.
\<close>

definition cyc_adjacent :: "key list \<Rightarrow> key \<Rightarrow> key \<Rightarrow> bool" where
  "cyc_adjacent loop a b \<longleftrightarrow> (a, b) \<in> set (loop_pairs loop) \<or> (b, a) \<in> set (loop_pairs loop)"

definition cyc_walk :: "key list \<Rightarrow> key \<Rightarrow> key \<Rightarrow> key list" where
  "cyc_walk loop a b = takeWhile (\<lambda>x. x \<noteq> b) (rotate (index loop a) loop) @ [b]"

text \<open>
  A loop is the triangle \<open>a\<close>, \<open>b\<close>, \<open>c\<close>, in this winding order, when it is one of the
  three rotations of \<open>[a, b, c]\<close>. A side of an edge \<open>(u, v)\<close> is a triangle side when it
  has no face, or its face is a triangle with the winding order \<open>u\<close>, \<open>v\<close>, \<open>opp\<close> whose
  third vertex \<open>opp\<close> is in the vertex table.

  What the triangle split leaves on one side of the edge, from the mesh \<open>m\<close> before to the
  mesh \<open>m'\<close> after: without a face, the two boundary half-edges \<open>(u, w)\<close> and \<open>(w, v)\<close>
  with the no-face sentinel; with a face, the face is gone and two faces under keys that
  were unused before are the triangles \<open>[u, w, opp]\<close> and \<open>[w, v, opp]\<close>, which keep the
  winding order of \<open>[u, v, opp]\<close> and own the half-edges \<open>(u, w)\<close> and \<open>(w, v)\<close>.
\<close>

definition tri_loop :: "key list \<Rightarrow> key \<Rightarrow> key \<Rightarrow> key \<Rightarrow> bool" where
  "tri_loop loop a b c \<longleftrightarrow>
     distinct [a, b, c] \<and> (loop = [a, b, c] \<or> loop = [b, c, a] \<or> loop = [c, a, b])"

definition side_triangle :: "mesh \<Rightarrow> fkey option \<Rightarrow> key \<Rightarrow> key \<Rightarrow> key \<Rightarrow> bool" where
  "side_triangle m fk u v opp \<longleftrightarrow>
     (case fk of None \<Rightarrow> True
      | Some f \<Rightarrow> vertex m opp \<noteq> None \<and> (\<exists>loop. face m f = Some loop \<and> tri_loop loop u v opp))"

definition side_retriangulated ::
  "mesh \<Rightarrow> mesh \<Rightarrow> fkey option \<Rightarrow> key \<Rightarrow> key \<Rightarrow> key \<Rightarrow> key \<Rightarrow> bool" where
  "side_retriangulated m m' fk u v w opp \<longleftrightarrow>
     (case fk of
        None \<Rightarrow> halfedge m' (u, w) = Some None \<and> halfedge m' (w, v) = Some None
      | Some f \<Rightarrow>
          face m' f = None \<and>
          (\<exists>k1 k2. k1 \<noteq> k2 \<and> face m k1 = None \<and> face m k2 = None \<and>
             face m' k1 = Some [u, w, opp] \<and> face m' k2 = Some [w, v, opp] \<and>
             halfedge m' (u, w) = Some (Some k1) \<and> halfedge m' (w, v) = Some (Some k2)))"

text \<open>
  The edges of an adjacency dictionary: \<open>u\<close> has an entry and \<open>v\<close> is in it. The adjacency
  is symmetric, as the one of a mesh is, when every neighbour \<open>v\<close> of a vertex \<open>u\<close> has an
  entry of its own and \<open>u\<close> is in it.
\<close>

definition adjacency_edges :: "adjacency \<Rightarrow> (key \<times> key) set" where
  "adjacency_edges adj = {(u, v). \<exists>ns. map_of adj u = Some ns \<and> v \<in> set ns}"

definition symmetric_adjacency :: "adjacency \<Rightarrow> bool" where
  "symmetric_adjacency adj \<longleftrightarrow>
     (\<forall>(u, ns) \<in> set adj. \<forall>v \<in> set ns.
        case map_of adj v of None \<Rightarrow> False | Some ms \<Rightarrow> u \<in> set ms)"

section \<open>Example meshes\<close>

text \<open>
  A single triangle, and a square cut into two triangles along the diagonal from vertex
  \<open>0\<close> to vertex \<open>2\<close>; the outer half-edges carry the no-face sentinel.
\<close>

definition single_triangle :: mesh where
  "single_triangle =
     \<lparr>vertex = [0 \<mapsto> (0, 0, 0), 1 \<mapsto> (1, 0, 0), 2 \<mapsto> (0, 1, 0)],
      face = [0 \<mapsto> [0, 1, 2]],
      halfedge = [(0, 1) \<mapsto> Some 0, (1, 2) \<mapsto> Some 0, (2, 0) \<mapsto> Some 0,
                  (1, 0) \<mapsto> None, (2, 1) \<mapsto> None, (0, 2) \<mapsto> None],
      next_key = 3, next_fkey = 1\<rparr>"

definition two_triangles :: mesh where
  "two_triangles =
     \<lparr>vertex = [0 \<mapsto> (0, 0, 0), 1 \<mapsto> (1, 0, 0), 2 \<mapsto> (1, 1, 0), 3 \<mapsto> (0, 1, 0)],
      face = [0 \<mapsto> [0, 1, 2], 1 \<mapsto> [0, 2, 3]],
      halfedge = [(0, 1) \<mapsto> Some 0, (1, 2) \<mapsto> Some 0, (2, 0) \<mapsto> Some 0,
                  (0, 2) \<mapsto> Some 1, (2, 3) \<mapsto> Some 1, (3, 0) \<mapsto> Some 1,
                  (1, 0) \<mapsto> None, (2, 1) \<mapsto> None, (3, 2) \<mapsto> None, (0, 3) \<mapsto> None],
      next_key = 4, next_fkey = 2\<rparr>"

text \<open>A single quadrilateral face.\<close>

definition single_quad :: mesh where
  "single_quad =
     \<lparr>vertex = [0 \<mapsto> (0, 0, 0), 1 \<mapsto> (1, 0, 0), 2 \<mapsto> (1, 1, 0), 3 \<mapsto> (0, 1, 0)],
      face = [0 \<mapsto> [0, 1, 2, 3]],
      halfedge = [(0, 1) \<mapsto> Some 0, (1, 2) \<mapsto> Some 0, (2, 3) \<mapsto> Some 0, (3, 0) \<mapsto> Some 0,
                  (1, 0) \<mapsto> None, (2, 1) \<mapsto> None, (3, 2) \<mapsto> None, (0, 3) \<mapsto> None],
      next_key = 4, next_fkey = 1\<rparr>"

text \<open>
  The adjacency of two triangles that share no vertex, and a triangle as a mesh and as a
  network.
\<close>

definition two_disjoint_triangles :: adjacency where
  "two_disjoint_triangles =
     [(0, [1, 2]), (1, [2, 0]), (2, [0, 1]), (3, [4, 5]), (4, [5, 3]), (5, [3, 4])]"

definition triangle_graph :: mesh_graph where
  "triangle_graph =
     \<lparr>mesh_vertex = [0, 1, 2], mesh_adjacency = [(0, [1, 2]), (1, [2, 0]), (2, [0, 1])]\<rparr>"

definition triangle_network :: network where
  "triangle_network =
     \<lparr>network_vertex = [0, 1, 2], network_adjacency = [(0, [1, 2]), (1, [2, 0]), (2, [0, 1])]\<rparr>"

text \<open>
  A single vertex without neighbours, and an edge beside a vertex without neighbours. In the
  examples the library's constructor is one that always returns, with the triplets
  themselves as the matrix in coordinate format.
\<close>

definition coo_triplets :: "triplets \<Rightarrow> error + triplets" where
  "coo_triplets t = Inr t"

definition isolated_vertex :: mesh_graph where
  "isolated_vertex = \<lparr>mesh_vertex = [0], mesh_adjacency = [(0, [])]\<rparr>"

definition edge_and_isolated_vertex :: mesh_graph where
  "edge_and_isolated_vertex =
     \<lparr>mesh_vertex = [0, 1, 2], mesh_adjacency = [(0, [1]), (1, [0]), (2, [])]\<rparr>"


section \<open>Properties of the topological editor\<close>

text \<open>
  C3. On a boundary edge, that is, when both directions are in the half-edge index and one
  of them is the no-face sentinel, and with \<open>0 < t < 1\<close> and \<open>allow_boundary\<close> false, both
  \<open>mesh_split_edge\<close> and \<open>trimesh_split_edge\<close> return the "not performed" signal
  without raising and leave the whole mesh as it was.
\<close>

theorem boundary_skip_unchanged:
  assumes "0 < t" and "t < 1"
    and "halfedge m (u, v) = Some a" and "halfedge m (v, u) = Some b"
    and "a = None \<or> b = None"
  shows "mesh_split_edge m u v t False = (Inr None, m)
       \<and> trimesh_split_edge m u v t False = (Inr None, m)"
  using assms by (auto simp: mesh_split_edge_def trimesh_split_edge_def)


theorem boundary_skip_unchanged_witness:
  "mesh_split_edge single_triangle 1 0 (1/2) False = (Inr None, single_triangle)
   \<and> trimesh_split_edge single_triangle 1 0 (1/2) False = (Inr None, single_triangle)"
  using boundary_skip_unchanged [of "1/2" single_triangle 1 0 None "Some 0"]
  by (simp add: single_triangle_def)

lemma index_append_Cons: "x \<notin> set pre \<Longrightarrow> index (pre @ x # post) x = length pre"
  by (induction pre) auto

lemma py_insert_at: "py_insert (pre @ x # post) (length pre) w = pre @ w # x # post"
  by (simp add: py_insert_def)

lemma splice_loop_Some:
  "face m f = Some (pre @ x # post) \<Longrightarrow> x \<notin> set pre \<Longrightarrow>
   splice_loop m (Some f) x w = Inr (m\<lparr>face := (face m)(f \<mapsto> pre @ w # x # post)\<rparr>)"
  by (simp add: splice_loop_def py_index_def index_append_Cons py_insert_at)

text \<open>
  C1. Splitting an interior edge \<open>(u, v)\<close> at \<open>0 < t < 1\<close>: the edge has the face \<open>fuv\<close> on
  its \<open>(u, v)\<close> side and the face \<open>fvu\<close> on the other, two different faces of the face
  table whose loops contain \<open>v\<close> respectively \<open>u\<close> (written as the loop split at the first
  occurrence), both end points are in the vertex table, and the registry's next key is
  unused. Then \<open>mesh_split_edge\<close> returns the new key \<open>w\<close>; \<open>w\<close> gets the linear
  interpolation of the two end points; \<open>(u, v)\<close> is replaced by \<open>(u, w)\<close> and \<open>(w, v)\<close>
  with the face \<open>fuv\<close>, \<open>(v, u)\<close> by \<open>(v, w)\<close> and \<open>(w, u)\<close> with the face \<open>fvu\<close>; \<open>w\<close> is
  inserted immediately before \<open>v\<close> in the loop of \<open>fuv\<close> and immediately before \<open>u\<close> in
  the loop of \<open>fvu\<close>; nothing else changes.
\<close>

theorem split_edge_interior:
  assumes t: "0 < t" "t < 1"
    and uv: "halfedge m (u, v) = Some (Some fuv)"
    and vu: "halfedge m (v, u) = Some (Some fvu)"
    and sides: "fuv \<noteq> fvu"
    and Luv: "face m fuv = Some (pre @ v # post)" "v \<notin> set pre"
    and Lvu: "face m fvu = Some (pre' @ u # post')" "u \<notin> set pre'"
    and pu: "vertex m u = Some a" and pv: "vertex m v = Some b"
    and fresh: "next_key m \<notin> dom (vertex m)"
    and w: "w = next_key m"
  shows "mesh_split_edge m u v t allow_boundary =
           (Inr (Some w),
            m\<lparr>vertex := (vertex m)(w \<mapsto> lerp a b t),
              face := (face m)(fuv \<mapsto> pre @ w # v # post, fvu \<mapsto> pre' @ w # u # post'),
              halfedge := (halfedge m)((u, w) \<mapsto> Some fuv, (w, v) \<mapsto> Some fuv, (u, v) := None,
                                        (v, w) \<mapsto> Some fvu, (w, u) \<mapsto> Some fvu, (v, u) := None),
              next_key := Suc w\<rparr>)
         \<and> w \<notin> dom (vertex m) \<and> w \<noteq> u \<and> w \<noteq> v"
proof -
  have wu: "w \<noteq> u" and wv: "w \<noteq> v" using fresh pu pv w by auto
  have uv_ne: "u \<noteq> v" using uv vu sides by auto
  show ?thesis
    using assms wu wv uv_ne
    by (simp add: mesh_split_edge_def edge_point_def add_vertex_def split_side_def
        set_halfedge_def del_halfedge_def splice_loop_Some)
qed

theorem split_edge_interior_witness:
  "fst (mesh_split_edge two_triangles 0 2 (1/2) False) = Inr (Some 4)
   \<and> vertex (snd (mesh_split_edge two_triangles 0 2 (1/2) False)) 4 = Some (1/2, 1/2, 0)
   \<and> face (snd (mesh_split_edge two_triangles 0 2 (1/2) False)) 1 = Some [0, 4, 2, 3]
   \<and> face (snd (mesh_split_edge two_triangles 0 2 (1/2) False)) 0 = Some [4, 0, 1, 2]"
proof -
  have h1: "halfedge two_triangles (0, 2) = Some (Some 1)"
    and h2: "halfedge two_triangles (2, 0) = Some (Some 0)"
    and h3: "face two_triangles 1 = Some ([0] @ 2 # [3])"
    and h4: "face two_triangles 0 = Some ([] @ 0 # [1, 2])"
    and h5: "vertex two_triangles 0 = Some (0, 0, 0)"
    and h6: "vertex two_triangles 2 = Some (1, 1, 0)"
    and h7: "next_key two_triangles \<notin> dom (vertex two_triangles)"
    and h8: "4 = next_key two_triangles"
    by (simp_all add: two_triangles_def)
  have r: "mesh_split_edge two_triangles 0 2 (1/2) False =
      (Inr (Some 4),
       two_triangles\<lparr>vertex := (vertex two_triangles)(4 \<mapsto> lerp (0, 0, 0) (1, 1, 0) (1/2)),
         face := (face two_triangles)(1 \<mapsto> [0] @ 4 # 2 # [3], 0 \<mapsto> [] @ 4 # 0 # [1, 2]),
         halfedge := (halfedge two_triangles)((0, 4) \<mapsto> Some 1, (4, 2) \<mapsto> Some 1,
            (0, 2) := None, (2, 4) \<mapsto> Some 0, (4, 0) \<mapsto> Some 0, (2, 0) := None),
         next_key := Suc 4\<rparr>)"
    using split_edge_interior [OF _ _ h1 h2 _ h3 _ h4 _ h5 h6 h7 h8, of "1/2" False]
    by simp
  show ?thesis
    unfolding r by (simp add: lerp_def)
qed

lemma two_positions:
  assumes "u \<in> set L" "v \<in> set L" "u \<noteq> v"
  shows "(\<exists>A B C. L = A @ u # B @ v # C) \<or> (\<exists>A B C. L = A @ v # B @ u # C)"
proof -
  from assms(1) obtain A R where L: "L = A @ u # R" by (auto simp: in_set_conv_decomp)
  from assms(2,3) L have "v \<in> set A \<or> v \<in> set R" by auto
  then show ?thesis
  proof
    assume "v \<in> set A"
    then obtain A1 A2 where "A = A1 @ v # A2" by (auto simp: in_set_conv_decomp)
    with L have "L = A1 @ v # A2 @ u # R" by simp
    then show ?thesis by blast
  next
    assume "v \<in> set R"
    then obtain R1 R2 where "R = R1 @ v # R2" by (auto simp: in_set_conv_decomp)
    with L have "L = A @ u # R1 @ v # R2" by simp
    then show ?thesis by blast
  qed
qed

lemma pair_in_loop_pairs: "(x, y) \<in> set (loop_pairs (P @ x # y # S))"
  unfolding loop_pairs_def in_set_zip
  by (rule exI[of _ "length P"]) (simp add: nth_rotate1 nth_append)

lemma wrap_in_loop_pairs: "(y, x) \<in> set (loop_pairs (x # B @ [y]))"
  unfolding loop_pairs_def in_set_zip
  by (rule exI[of _ "Suc (length B)"]) (simp add: nth_rotate1 nth_append)

lemma split_forward:
  assumes d: "distinct (A @ u # B @ v # C)"
  shows "split_loops (A @ u # B @ v # C) (index (A @ u # B @ v # C) u) (index (A @ u # B @ v # C) v)
         = (if B = [] then Inl ValueError else Inr (u # B @ [v], v # C @ A @ [u]))"
proof -
  have iu: "index (A @ u # B @ v # C) u = length A"
    using d by (intro index_append_Cons) auto
  have iv: "index (A @ u # B @ v # C) v = length A + Suc (length B)"
    using d index_append_Cons[of v "A @ u # B" C] by auto
  show ?thesis
    by (simp add: iu iv split_loops_def slice_def)
qed

lemma split_backward:
  assumes d: "distinct (A @ v # B @ u # C)"
  shows "split_loops (A @ v # B @ u # C) (index (A @ v # B @ u # C) u) (index (A @ v # B @ u # C) v)
         = Inr (u # C @ A @ [v], v # B @ [u])"
proof -
  have iv: "index (A @ v # B @ u # C) v = length A"
    using d by (intro index_append_Cons) auto
  have iu: "index (A @ v # B @ u # C) u = length A + Suc (length B)"
    using d index_append_Cons[of u "A @ v # B" C] by auto
  show ?thesis
    by (simp add: iu iv split_loops_def slice_def)
qed

lemma takeWhile_upto: "x \<notin> set P \<Longrightarrow> takeWhile (\<lambda>y. y \<noteq> x) (P @ x # S) = P"
  by (induction P) auto

lemma walk_forward:
  assumes d: "distinct (A @ u # B @ v # C)"
  shows "cyc_walk (A @ u # B @ v # C) u v = u # B @ [v]"
    and "cyc_walk (A @ u # B @ v # C) v u = v # C @ A @ [u]"
proof -
  have iu: "index (A @ u # B @ v # C) u = length A"
    using d by (intro index_append_Cons) auto
  have iv: "index (A @ u # B @ v # C) v = length A + Suc (length B)"
    using d index_append_Cons[of v "A @ u # B" C] by auto
  have r1: "rotate (length A) (A @ u # B @ v # C) = (u # B @ v # C) @ A"
    by (rule rotate_append)
  have r2: "rotate (length (A @ u # B)) ((A @ u # B) @ v # C) = (v # C) @ A @ u # B"
    by (rule rotate_append)
  show "cyc_walk (A @ u # B @ v # C) u v = u # B @ [v]"
    using d takeWhile_upto [of v "u # B" "C @ A"] by (simp add: cyc_walk_def iu r1)
  show "cyc_walk (A @ u # B @ v # C) v u = v # C @ A @ [u]"
    using d r2 takeWhile_upto [of u "v # C @ A" B] by (simp add: cyc_walk_def iv)
qed

lemma add_face_ok:
  assumes "\<forall>k \<in> set vs. vertex m k \<noteq> None" "distinct vs" "3 \<le> length vs"
  shows "add_face m vs =
           (Inr (next_fkey m),
            m\<lparr>face := (face m)(next_fkey m \<mapsto> vs),
              halfedge := fold (\<lambda>e h. h(e \<mapsto> Some (next_fkey m))) (loop_pairs vs) (halfedge m),
              next_fkey := Suc (next_fkey m)\<rparr>)"
  using assms by (simp add: add_face_def list_all_iff distinct_remdups_id)

lemma split_face_run:
  assumes L: "face m fk = Some L" and uL: "u \<in> set L" and vL: "v \<in> set L"
    and sp: "split_loops L (index L u) (index L v) = Inr (f, g)"
    and f: "set f \<subseteq> set L" "distinct f" "3 \<le> length f"
    and g: "set g \<subseteq> set L" "distinct g" "3 \<le> length g"
    and vs: "\<forall>k \<in> set L. vertex m k \<noteq> None"
    and fresh: "fk < next_fkey m"
  shows "fst (mesh_split_face m fk u v) = Inr (next_fkey m, Suc (next_fkey m))
       \<and> face (snd (mesh_split_face m fk u v))
           = (face m)(next_fkey m \<mapsto> f, Suc (next_fkey m) \<mapsto> g, fk := None)"
proof -
  have vf: "\<forall>k \<in> set f. vertex m k \<noteq> None" and vg: "\<forall>k \<in> set g. vertex m k \<noteq> None"
    using f(1) g(1) vs by auto
  note a1 = add_face_ok [OF vf f(2,3)]
  define m1 where "m1 = snd (add_face m f)"
  have m1: "add_face m f = (Inr (next_fkey m), m1)" "vertex m1 = vertex m"
    "next_fkey m1 = Suc (next_fkey m)" "face m1 = (face m)(next_fkey m \<mapsto> f)"
    by (simp_all add: m1_def a1)
  have vg1: "\<forall>k \<in> set g. vertex m1 k \<noteq> None" using vg m1(2) by simp
  note a2 = add_face_ok [OF vg1 g(2,3)]
  define m2 where "m2 = snd (add_face m1 g)"
  have m2: "add_face m1 g = (Inr (Suc (next_fkey m)), m2)"
    "face m2 = (face m)(next_fkey m \<mapsto> f, Suc (next_fkey m) \<mapsto> g)"
    by (simp_all add: m2_def a2 m1)
  have d: "del_face m2 fk = Inr (m2\<lparr>face := (face m2)(fk := None)\<rparr>)"
    using L fresh by (simp add: del_face_def m2)
  show ?thesis
    using uL vL by (simp add: mesh_split_face_def L sp m1(1) m2 d)
qed

text \<open>
  C6. A face whose loop \<open>L\<close> has distinct entries and contains \<open>u\<close> and \<open>v\<close> at
  non-adjacent cyclic positions, in a mesh whose vertex table has every vertex of the
  loop and whose registry hands out face keys above those in use: \<open>mesh_split_face\<close>
  returns two new face keys, registers under them the two sub-loops of \<open>L\<close> cut at \<open>u\<close>
  and \<open>v\<close> (from \<open>u\<close> to \<open>v\<close> and from \<open>v\<close> to \<open>u\<close>, each with both as end points), and
  deletes the original face key; the face table is otherwise unchanged. The witness is the
  quadrilateral \<open>[0, 1, 2, 3]\<close> split at \<open>0\<close> and \<open>2\<close> into \<open>[0, 1, 2]\<close> and \<open>[2, 3, 0]\<close>.
\<close>

theorem split_face_sub_loops:
  assumes L: "face m fk = Some L" and d: "distinct L"
    and uL: "u \<in> set L" and vL: "v \<in> set L" and ne: "u \<noteq> v"
    and na: "\<not> cyc_adjacent L u v"
    and vs: "\<forall>k \<in> set L. vertex m k \<noteq> None"
    and reg: "\<forall>f \<in> dom (face m). f < next_fkey m"
  shows "fst (mesh_split_face m fk u v) = Inr (next_fkey m, Suc (next_fkey m))
       \<and> face (snd (mesh_split_face m fk u v))
           = (face m)(next_fkey m \<mapsto> cyc_walk L u v, Suc (next_fkey m) \<mapsto> cyc_walk L v u,
                      fk := None)
       \<and> next_fkey m \<notin> dom (face m) \<and> Suc (next_fkey m) \<notin> dom (face m)"
proof -
  have fresh: "fk < next_fkey m" using L reg by auto
  have new: "next_fkey m \<notin> dom (face m) \<and> Suc (next_fkey m) \<notin> dom (face m)"
    using bspec [OF reg, of "next_fkey m"] bspec [OF reg, of "Suc (next_fkey m)"] by auto
  from two_positions [OF uL vL ne] show ?thesis
  proof (elim disjE exE)
    fix A B C assume eq: "L = A @ u # B @ v # C"
    have B: "B \<noteq> []" using na pair_in_loop_pairs [of u v A C]
      by (auto simp: cyc_adjacent_def eq)
    have AC: "A \<noteq> [] \<or> C \<noteq> []" using na wrap_in_loop_pairs [of v u B]
      by (auto simp: cyc_adjacent_def eq)
    have sp: "split_loops L (index L u) (index L v) = Inr (u # B @ [v], v # C @ A @ [u])"
      using split_forward [of A u B v C] d B by (simp add: eq)
    have "3 \<le> length (u # B @ [v])" using B by (cases B) auto
    moreover have "3 \<le> length (v # C @ A @ [u])" using AC by (cases A; cases C) auto
    ultimately show ?thesis
      using split_face_run [OF L uL vL sp _ _ _ _ _ _ vs fresh] d walk_forward [of A u B v C] new
      by (auto simp: eq)
  next
    fix A B C assume eq: "L = A @ v # B @ u # C"
    have B: "B \<noteq> []" using na pair_in_loop_pairs [of v u A C]
      by (auto simp: cyc_adjacent_def eq)
    have AC: "A \<noteq> [] \<or> C \<noteq> []" using na wrap_in_loop_pairs [of u v B]
      by (auto simp: cyc_adjacent_def eq)
    have sp: "split_loops L (index L u) (index L v) = Inr (u # C @ A @ [v], v # B @ [u])"
      using split_backward [of A v B u C] d by (simp add: eq)
    have "3 \<le> length (v # B @ [u])" using B by (cases B) auto
    moreover have "3 \<le> length (u # C @ A @ [v])" using AC by (cases A; cases C) auto
    ultimately show ?thesis
      using split_face_run [OF L uL vL sp _ _ _ _ _ _ vs fresh] d walk_forward [of A v B u C] new
      by (auto simp: eq)
  qed
qed

theorem split_face_sub_loops_witness:
  "fst (mesh_split_face single_quad 0 0 2) = Inr (1, 2)
   \<and> face (snd (mesh_split_face single_quad 0 0 2)) 1 = Some [0, 1, 2]
   \<and> face (snd (mesh_split_face single_quad 0 0 2)) 2 = Some [2, 3, 0]
   \<and> face (snd (mesh_split_face single_quad 0 0 2)) 0 = None"
proof -
  have h1: "face single_quad 0 = Some [0, 1, 2, 3]"
    and h2: "\<forall>k \<in> set [0, 1, 2, 3]. vertex single_quad k \<noteq> None"
    and h3: "\<forall>f \<in> dom (face single_quad). f < next_fkey single_quad"
    and h4: "next_fkey single_quad = 1"
    by (simp_all add: single_quad_def)
  have h5: "\<not> cyc_adjacent [0, 1, 2, 3] 0 2"
    by (simp add: cyc_adjacent_def loop_pairs_def)
  have w1: "cyc_walk [0, 1, 2, 3] 0 2 = [0, 1, 2]" and w2: "cyc_walk [0, 1, 2, 3] 2 0 = [2, 3, 0]"
    by code_simp+
  show ?thesis
    using split_face_sub_loops [OF h1 _ _ _ _ h5 h2 h3, unfolded w1 w2 h4]
    by simp
qed

text \<open>
  The two cases \<open>mesh_split_face\<close> does reject: a vertex that is not in the loop, and \<open>v\<close>
  at the position right after \<open>u\<close>. Both raise before any mutation.
\<close>

lemma split_face_guard:
  assumes "face m fk = Some L"
    and "u \<notin> set L \<or> v \<notin> set L \<or> Suc (index L u) = index L v"
  shows "mesh_split_face m fk u v = (Inl ValueError, m)"
  using assms by (auto simp: mesh_split_face_def split_loops_def)

lemma split_face_second_add_fails:
  assumes "face m fk = Some L" "u \<in> set L" "v \<in> set L"
    and "split_loops L (index L u) (index L v) = Inr (f, g)"
    and "add_face m f = (Inr k, m1)" and "add_face m1 g = (Inl e, m2)"
  shows "mesh_split_face m fk u v = (Inl e, m2)"
  using assms by (simp add: mesh_split_face_def)

text \<open>
  C5. Whenever \<open>u\<close> and \<open>v\<close> are adjacent in the cyclic loop, in either direction,
  \<open>mesh_split_face\<close> is to fail without mutation. Its neighbour check only tests
  \<open>i + 1 = j\<close>. On the quadrilateral \<open>[0, 1, 2, 3]\<close> with \<open>u = 1\<close> and \<open>v = 0\<close>, which
  are adjacent, the check passes, the loop is cut into \<open>[1, 2, 3, 0]\<close> and \<open>[0, 1]\<close>, and
  the first of them is registered as face \<open>1\<close> before \<open>add_face\<close> refuses the second: the
  mesh is mutated and the error is not the one of the neighbour check.
\<close>

theorem split_face_reversed_neighbours:
  "cyc_adjacent [0, 1, 2, 3] 1 0
   \<and> split_loops [0, 1, 2, 3] (index [0, 1, 2, 3 :: key] 1) (index [0, 1, 2, 3 :: key] 0)
       = Inr ([1, 2, 3, 0], [0, 1])
   \<and> fst (mesh_split_face single_quad 0 1 0) = Inl InvalidTopology
   \<and> face (snd (mesh_split_face single_quad 0 1 0)) 1 = Some [1, 2, 3, 0]
   \<and> face single_quad 1 = None"
proof -
  have h1: "face single_quad 0 = Some [0, 1, 2, 3]"
    and h2: "\<forall>k \<in> set [1, 2, 3, 0]. vertex single_quad k \<noteq> None"
    and h4: "next_fkey single_quad = 1" and h5: "face single_quad 1 = None"
    by (simp_all add: single_quad_def)
  have adj: "cyc_adjacent [0, 1, 2, 3] 1 0"
    by (simp add: cyc_adjacent_def loop_pairs_def)
  have sp: "split_loops [0, 1, 2, 3] (index [0, 1, 2, 3 :: key] 1) (index [0, 1, 2, 3 :: key] 0)
       = Inr ([1, 2, 3, 0], [0, 1])"
    by (simp add: split_loops_def slice_def)
  have a1: "add_face single_quad [1, 2, 3, 0] =
      (Inr (next_fkey single_quad),
       single_quad\<lparr>face := (face single_quad)(next_fkey single_quad \<mapsto> [1, 2, 3, 0]),
         halfedge := fold (\<lambda>e h. h(e \<mapsto> Some (next_fkey single_quad)))
                       (loop_pairs [1, 2, 3, 0]) (halfedge single_quad),
         next_fkey := Suc (next_fkey single_quad)\<rparr>)"
    by (rule add_face_ok [OF h2]) simp_all
  have a2: "add_face m1 [0, 1] = (Inl InvalidTopology, m1)" for m1
    by (simp add: add_face_def)
  have "mesh_split_face single_quad 0 1 0
          = (Inl InvalidTopology, snd (add_face single_quad [1, 2, 3, 0]))"
    unfolding a1 snd_conv by (rule split_face_second_add_fails [OF h1 _ _ sp a1 a2]) simp_all
  then show ?thesis
    using adj sp h5 unfolding a1 by (simp add: h4)
qed

text \<open>
  So the outcome is not the \<open>ValueError\<close> of the neighbour check, and the mesh is not the
  mesh before the call.
\<close>

theorem split_face_reversed_neighbours_witness:
  "fst (mesh_split_face single_quad 0 1 0) \<noteq> Inl ValueError
   \<and> snd (mesh_split_face single_quad 0 1 0) \<noteq> single_quad"
proof -
  from split_face_reversed_neighbours
  have a: "fst (mesh_split_face single_quad 0 1 0) = Inl InvalidTopology"
    and b: "face (snd (mesh_split_face single_quad 0 1 0)) 1 = Some [1, 2, 3, 0]"
    and c: "face single_quad 1 = None" by blast+
  from b c have "snd (mesh_split_face single_quad 0 1 0) \<noteq> single_quad" by auto
  with a show ?thesis by simp
qed


lemma trimesh_side_None:
  assumes "halfedge m (u, v) \<noteq> None"
  shows "trimesh_side m None u v w =
           (Inr (), m\<lparr>halfedge := (halfedge m)((u, w) \<mapsto> None, (w, v) \<mapsto> None, (u, v) := None)\<rparr>)"
  using assms by (auto simp add: trimesh_side_def set_halfedge_def del_halfedge_def Let_def)

lemma py_pred_tri:
  "tri_loop loop u v opp \<Longrightarrow> u \<in> set loop \<and> py_pred loop (index loop u) = opp"
  by (auto simp: tri_loop_def py_pred_def)

lemma loop_pairs_3: "loop_pairs [a, b, c] = [(a, b), (b, c), (c, a)]"
  by (simp add: loop_pairs_def)

lemma add_face_tri:
  assumes "vertex m a \<noteq> None" "vertex m b \<noteq> None" "vertex m c \<noteq> None" "distinct [a, b, c]"
  shows "add_face m [a, b, c] =
           (Inr (next_fkey m),
            m\<lparr>face := (face m)(next_fkey m \<mapsto> [a, b, c]),
              halfedge := (halfedge m)((a, b) \<mapsto> Some (next_fkey m), (b, c) \<mapsto> Some (next_fkey m),
                                        (c, a) \<mapsto> Some (next_fkey m)),
              next_fkey := Suc (next_fkey m)\<rparr>)"
  using assms add_face_ok [of "[a, b, c]" m] by (simp add: loop_pairs_3)

lemma trimesh_side_Some:
  assumes L: "face m f = Some loop" and tri: "tri_loop loop u v opp"
    and vs: "vertex m u \<noteq> None" "vertex m v \<noteq> None" "vertex m opp \<noteq> None" "vertex m w \<noteq> None"
    and w: "w \<noteq> u" "w \<noteq> v" "w \<noteq> opp"
    and he: "halfedge m (u, v) \<noteq> None"
    and fresh: "f < next_fkey m"
    and k: "k = next_fkey m"
  shows "trimesh_side m (Some f) u v w =
           (Inr (),
            m\<lparr>face := (face m)(k \<mapsto> [u, w, opp], Suc k \<mapsto> [w, v, opp], f := None),
              halfedge := (halfedge m)((u, w) \<mapsto> Some k, (w, opp) \<mapsto> Some k, (opp, u) \<mapsto> Some k,
                 (w, v) \<mapsto> Some (Suc k), (v, opp) \<mapsto> Some (Suc k), (opp, w) \<mapsto> Some (Suc k),
                 (u, v) := None),
              next_fkey := Suc (Suc k)\<rparr>)"
proof -
  have d: "distinct [u, v, opp]" using tri by (simp add: tri_loop_def)
  have d1: "distinct [u, w, opp]" and d2: "distinct [w, v, opp]" using d w by auto
  note p = py_pred_tri [OF tri]
  note a1 = add_face_tri [OF vs(1) vs(4) vs(3) d1]
  define m1 where "m1 = snd (add_face m [u, w, opp])"
  have m1: "add_face m [u, w, opp] = (Inr k, m1)" by (simp add: m1_def a1 k)
  have m1v: "vertex m1 = vertex m" and m1k: "next_fkey m1 = Suc k"
    and m1f: "face m1 = (face m)(k \<mapsto> [u, w, opp])"
    and m1h: "halfedge m1 = (halfedge m)((u, w) \<mapsto> Some k, (w, opp) \<mapsto> Some k, (opp, u) \<mapsto> Some k)"
    by (simp_all add: m1_def a1 k)
  have vs1: "vertex m1 w \<noteq> None" "vertex m1 v \<noteq> None" "vertex m1 opp \<noteq> None"
    using vs by (simp_all add: m1v)
  note a2 = add_face_tri [OF vs1 d2]
  define m2 where "m2 = snd (add_face m1 [w, v, opp])"
  have m2: "add_face m1 [w, v, opp] = (Inr (Suc k), m2)" by (simp add: m2_def a2 m1k)
  have m2e: "m2 = m\<lparr>face := (face m)(k \<mapsto> [u, w, opp], Suc k \<mapsto> [w, v, opp]),
              halfedge := (halfedge m)((u, w) \<mapsto> Some k, (w, opp) \<mapsto> Some k, (opp, u) \<mapsto> Some k,
                 (w, v) \<mapsto> Some (Suc k), (v, opp) \<mapsto> Some (Suc k), (opp, w) \<mapsto> Some (Suc k)),
              next_fkey := Suc (Suc k)\<rparr>"
    unfolding m2_def a2 snd_conv m1f m1h m1k unfolding m1_def a1 snd_conv by (simp add: k)
  have dh: "del_halfedge m2 u v = Inr (m2\<lparr>halfedge := (halfedge m2)((u, v) := None)\<rparr>)"
    using he d w by (simp add: del_halfedge_def m2e)
  have df: "del_face (m2\<lparr>halfedge := (halfedge m2)((u, v) := None)\<rparr>) f
            = Inr (m2\<lparr>halfedge := (halfedge m2)((u, v) := None), face := (face m2)(f := None)\<rparr>)"
    using L fresh by (simp add: del_face_def m2e k)
  have "trimesh_side m (Some f) u v w
        = (Inr (), m2\<lparr>halfedge := (halfedge m2)((u, v) := None), face := (face m2)(f := None)\<rparr>)"
    using p by (simp add: trimesh_side_def L py_index_def m1 m2 dh df)
  then show ?thesis by (simp add: m2e)
qed

lemma trimesh_split_run:
  assumes "0 < t" "t < 1"
    and "halfedge m (u, v) = Some fuv" "halfedge m (v, u) = Some fvu"
    and "allow_boundary \<or> (fuv \<noteq> None \<and> fvu \<noteq> None)"
    and "vertex m u = Some a" "vertex m v = Some b"
    and "trimesh_side (m\<lparr>vertex := (vertex m)(next_key m \<mapsto> lerp a b t),
                          next_key := Suc (next_key m)\<rparr>) fuv u v (next_key m) = (Inr (), m2)"
    and "trimesh_side m2 fvu v u (next_key m) = (Inr (), m3)"
  shows "trimesh_split_edge m u v t allow_boundary = (Inr (Some (next_key m)), m3)"
  using assms by (auto simp: trimesh_split_edge_def edge_point_def add_vertex_def)

lemma tri_loop_sides: "tri_loop loop u v o1 \<Longrightarrow> tri_loop loop v u o2 \<Longrightarrow> False"
  by (auto simp: tri_loop_def)

lemma side_retriangulatedI:
  assumes "face m' f = None" "k1 \<noteq> k2" "face m k1 = None" "face m k2 = None"
    and "face m' k1 = Some [u, w, opp]" "face m' k2 = Some [w, v, opp]"
    and "halfedge m' (u, w) = Some (Some k1)" "halfedge m' (w, v) = Some (Some k2)"
  shows "side_retriangulated m m' (Some f) u v w opp"
  using assms by (auto simp: side_retriangulated_def)

text \<open>
  C7. An edge \<open>(u, v)\<close> of a triangle mesh that may be split (both directions in the
  half-edge index; interior, or \<open>allow_boundary\<close> true), with \<open>0 < t < 1\<close>, each side
  without a face or with a triangle, end points in the vertex table, and a registry whose
  next keys are unused. Then \<open>trimesh_split_edge\<close> returns the new vertex \<open>w\<close> at the
  interpolated position; each side with a triangle loses that face and gets the two
  triangles with \<open>w\<close> and the opposite vertex in the original winding order; each side
  without a face gets the two boundary half-edges with the no-face sentinel; the
  half-edges \<open>(u, v)\<close> and \<open>(v, u)\<close> are gone; every other face is unchanged.
\<close>

theorem trimesh_split_retriangulates:
  assumes t: "0 < t" "t < 1"
    and uv: "halfedge m (u, v) = Some fuv" and vu: "halfedge m (v, u) = Some fvu"
    and perm: "allow_boundary \<or> (fuv \<noteq> None \<and> fvu \<noteq> None)"
    and ne: "u \<noteq> v"
    and pu: "vertex m u = Some a" and pv: "vertex m v = Some b"
    and tuv: "side_triangle m fuv u v o1" and tvu: "side_triangle m fvu v u o2"
    and fresh: "next_key m \<notin> dom (vertex m)"
    and reg: "\<forall>f \<in> dom (face m). f < next_fkey m"
    and w: "w = next_key m"
    and m': "m' = snd (trimesh_split_edge m u v t allow_boundary)"
  shows "fst (trimesh_split_edge m u v t allow_boundary) = Inr (Some w)
       \<and> vertex m' = (vertex m)(w \<mapsto> lerp a b t)
       \<and> side_retriangulated m m' fuv u v w o1
       \<and> side_retriangulated m m' fvu v u w o2
       \<and> halfedge m' (u, v) = None \<and> halfedge m' (v, u) = None
       \<and> (\<forall>k. face m k \<noteq> None \<and> Some k \<noteq> fuv \<and> Some k \<noteq> fvu \<longrightarrow> face m' k = face m k)"
proof -
  define m1 where "m1 = m\<lparr>vertex := (vertex m)(w \<mapsto> lerp a b t), next_key := Suc w\<rparr>"
  define k where "k = next_fkey m"
  have wu: "w \<noteq> u" and wv: "w \<noteq> v" using fresh pu pv w by auto
  have kfree: "face m j = None" if "k \<le> j" for j
    using that bspec [OF reg, of j] by (auto simp: k_def)
  have below: "j < k" if "face m j \<noteq> None" for j
    using that bspec [OF reg, of j] by (auto simp: k_def)
  have m1v: "vertex m1 = (vertex m)(w \<mapsto> lerp a b t)"
    and m1h: "halfedge m1 = halfedge m" and m1f: "face m1 = face m" and m1k: "next_fkey m1 = k"
    by (simp_all add: m1_def k_def)
  have m1n: "vertex m1 u \<noteq> None" "vertex m1 v \<noteq> None" "vertex m1 w \<noteq> None"
    using pu pv wu wv unfolding m1v by (simp_all del: fun_upd_apply add: fun_upd_same fun_upd_other)
  have run: "trimesh_split_edge m u v t allow_boundary = (Inr (Some w), m3)"
    if "trimesh_side m1 fuv u v w = (Inr (), m2)" "trimesh_side m2 fvu v u w = (Inr (), m3)"
    for m2 m3
    using trimesh_split_run [OF t uv vu perm pu pv] that by (simp add: m1_def w)
  have hv: "halfedge m1 (u, v) \<noteq> None" using uv by (simp add: m1h)
  txt \<open>The side \<open>(u, v)\<close>.\<close>
  obtain m2 where s1: "trimesh_side m1 fuv u v w = (Inr (), m2)"
    and m2v: "vertex m2 = vertex m1"
    and m2vu: "halfedge m2 (v, u) = Some fvu"
    and m2uv: "halfedge m2 (u, v) = None"
    and m2k: "k \<le> next_fkey m2"
    and m2old: "\<And>j. j < k \<Longrightarrow> Some j \<noteq> fuv \<Longrightarrow> face m2 j = face m j"
    and m2new: "\<And>j. next_fkey m2 \<le> j \<Longrightarrow> face m2 j = None"
    and m2del: "\<And>f. fuv = Some f \<Longrightarrow> face m2 f = None"
    and m2side: "\<And>m3. (\<And>j. j < next_fkey m2 \<Longrightarrow> k \<le> j \<Longrightarrow> face m3 j = face m2 j)
          \<Longrightarrow> (\<And>f. fuv = Some f \<Longrightarrow> face m3 f = None)
          \<Longrightarrow> halfedge m3 (u, w) = halfedge m2 (u, w) \<Longrightarrow> halfedge m3 (w, v) = halfedge m2 (w, v)
          \<Longrightarrow> side_retriangulated m m3 fuv u v w o1"
  proof (cases fuv)
    case None
    let ?m2 = "m1\<lparr>halfedge := (halfedge m1)((u, w) \<mapsto> None, (w, v) \<mapsto> None, (u, v) := None)\<rparr>"
    show ?thesis
    proof (rule that [of ?m2])
      show "trimesh_side m1 fuv u v w = (Inr (), ?m2)"
        unfolding None by (rule trimesh_side_None [OF hv])
      show "halfedge ?m2 (v, u) = Some fvu" using vu ne wu wv by (simp add: m1h)
      show "side_retriangulated m m3 fuv u v w o1"
        if "halfedge m3 (u, w) = halfedge ?m2 (u, w)" "halfedge m3 (w, v) = halfedge ?m2 (w, v)"
        for m3
        using that ne wu wv by (simp add: None side_retriangulated_def)
    qed (use kfree in \<open>simp_all add: m1f m1k None\<close>)
  next
    case (Some f)
    from tuv Some obtain loop where o1: "vertex m o1 \<noteq> None"
      and L: "face m f = Some loop" and tri: "tri_loop loop u v o1"
      by (auto simp: side_triangle_def)
    have wo: "w \<noteq> o1" using o1 fresh w by auto
    have d: "distinct [u, v, o1]" using tri by (simp add: tri_loop_def)
    have fk: "f < k" using L below [of f] by simp
    have o1n: "vertex m1 o1 \<noteq> None" using o1 wo unfolding m1v by simp
    let ?m2 = "m1\<lparr>face := (face m1)(k \<mapsto> [u, w, o1], Suc k \<mapsto> [w, v, o1], f := None),
              halfedge := (halfedge m1)((u, w) \<mapsto> Some k, (w, o1) \<mapsto> Some k, (o1, u) \<mapsto> Some k,
                 (w, v) \<mapsto> Some (Suc k), (v, o1) \<mapsto> Some (Suc k), (o1, w) \<mapsto> Some (Suc k),
                 (u, v) := None),
              next_fkey := Suc (Suc k)\<rparr>"
    show ?thesis
    proof (rule that [of ?m2])
      show "trimesh_side m1 fuv u v w = (Inr (), ?m2)"
        unfolding Some
        by (rule trimesh_side_Some [OF _ tri m1n(1,2) o1n m1n(3) wu wv wo hv])
           (use L fk in \<open>simp_all add: m1f m1k\<close>)
      show "halfedge ?m2 (v, u) = Some fvu" using vu d wu wv by (simp add: m1h)
      show "halfedge ?m2 (u, v) = None" by simp
      show "face ?m2 j = face m j" if "j < k" "Some j \<noteq> fuv" for j
        using that by (simp add: Some m1f)
      show "side_retriangulated m m3 fuv u v w o1"
        if a: "\<And>j. j < next_fkey ?m2 \<Longrightarrow> k \<le> j \<Longrightarrow> face m3 j = face ?m2 j"
          and b: "\<And>f. fuv = Some f \<Longrightarrow> face m3 f = None"
          and c: "halfedge m3 (u, w) = halfedge ?m2 (u, w)" "halfedge m3 (w, v) = halfedge ?m2 (w, v)"
        for m3
        unfolding Some
      proof (rule side_retriangulatedI [of _ _ k "Suc k"])
        show "face m3 f = None" using b Some by simp
        show "face m3 k = Some [u, w, o1]" using a [of k] fk by simp
        show "face m3 (Suc k) = Some [w, v, o1]" using a [of "Suc k"] fk by simp
        show "halfedge m3 (u, w) = Some (Some k)" using c(1) d wu wv wo by simp
        show "halfedge m3 (w, v) = Some (Some (Suc k))" using c(2) d wu wv wo by simp
      qed (use kfree in simp_all)
    qed (use kfree fk in \<open>simp_all add: m1f Some\<close>)
  qed
  txt \<open>The side \<open>(v, u)\<close>, from the mesh the first side has left.\<close>
  have m2n: "vertex m2 u \<noteq> None" "vertex m2 v \<noteq> None" "vertex m2 w \<noteq> None"
    using m1n by (simp_all add: m2v)
  have hv2: "halfedge m2 (v, u) \<noteq> None" by (simp add: m2vu)
  obtain m3 where s2: "trimesh_side m2 fvu v u w = (Inr (), m3)"
    and m3v: "vertex m3 = vertex m2"
    and m3keep: "halfedge m3 (u, w) = halfedge m2 (u, w)" "halfedge m3 (w, v) = halfedge m2 (w, v)"
    and m3uv: "halfedge m3 (u, v) = None" and m3vu: "halfedge m3 (v, u) = None"
    and m3old: "\<And>j. j < next_fkey m2 \<Longrightarrow> Some j \<noteq> fvu \<Longrightarrow> face m3 j = face m2 j"
    and m3del: "\<And>g. fvu = Some g \<Longrightarrow> face m3 g = None"
    and m3side: "side_retriangulated m m3 fvu v u w o2"
  proof (cases fvu)
    case None
    let ?m3 = "m2\<lparr>halfedge := (halfedge m2)((v, w) \<mapsto> None, (w, u) \<mapsto> None, (v, u) := None)\<rparr>"
    show ?thesis
    proof (rule that [of ?m3])
      show "trimesh_side m2 fvu v u w = (Inr (), ?m3)"
        unfolding None by (rule trimesh_side_None [OF hv2])
      show "side_retriangulated m ?m3 fvu v u w o2"
        using ne wu wv by (simp add: None side_retriangulated_def)
    qed (use ne wu wv m2uv in \<open>simp_all add: None\<close>)
  next
    case (Some g)
    from tvu Some obtain loop where o2: "vertex m o2 \<noteq> None"
      and L: "face m g = Some loop" and tri: "tri_loop loop v u o2"
      by (auto simp: side_triangle_def)
    have wo: "w \<noteq> o2" using o2 fresh w by auto
    have d: "distinct [v, u, o2]" using tri by (simp add: tri_loop_def)
    have gk: "g < k" using L below [of g] by simp
    have gf: "Some g \<noteq> fuv"
    proof
      assume "Some g = fuv"
      with tuv L obtain "tri_loop loop u v o1" by (auto simp: side_triangle_def)
      with tri show False using tri_loop_sides by blast
    qed
    have L2: "face m2 g = Some loop" using m2old [OF gk gf] L by simp
    have o2n: "vertex m2 o2 \<noteq> None" using o2 wo unfolding m2v m1v by simp
    define k2 where "k2 = next_fkey m2"
    have kk2: "k \<le> k2" using m2k by (simp add: k2_def)
    let ?m3 = "m2\<lparr>face := (face m2)(k2 \<mapsto> [v, w, o2], Suc k2 \<mapsto> [w, u, o2], g := None),
              halfedge := (halfedge m2)((v, w) \<mapsto> Some k2, (w, o2) \<mapsto> Some k2, (o2, v) \<mapsto> Some k2,
                 (w, u) \<mapsto> Some (Suc k2), (u, o2) \<mapsto> Some (Suc k2), (o2, w) \<mapsto> Some (Suc k2),
                 (v, u) := None),
              next_fkey := Suc (Suc k2)\<rparr>"
    show ?thesis
    proof (rule that [of ?m3])
      show "trimesh_side m2 fvu v u w = (Inr (), ?m3)"
        unfolding Some
        by (rule trimesh_side_Some [OF L2 tri m2n(2,1) o2n m2n(3) wv wu wo hv2])
           (use gk kk2 in \<open>simp_all add: k2_def\<close>)
      show "halfedge ?m3 (u, w) = halfedge m2 (u, w)" using d ne wu wv wo by simp
      show "halfedge ?m3 (w, v) = halfedge m2 (w, v)" using d ne wu wv wo by simp
      show "halfedge ?m3 (u, v) = None" using d ne wu wv wo m2uv by simp
      show "face ?m3 j = face m2 j" if "j < next_fkey m2" "Some j \<noteq> fvu" for j
        using that by (simp add: Some k2_def)
      show "side_retriangulated m ?m3 fvu v u w o2"
        unfolding Some
      proof (rule side_retriangulatedI [of _ _ k2 "Suc k2"])
        show "face ?m3 k2 = Some [v, w, o2]" using gk kk2 by simp
        show "face ?m3 (Suc k2) = Some [w, u, o2]" using gk kk2 by simp
        show "halfedge ?m3 (v, w) = Some (Some k2)" using d wu wv wo by simp
        show "halfedge ?m3 (w, u) = Some (Some (Suc k2))" using d wu wv wo by simp
      qed (use kfree kk2 in simp_all)
    qed (simp_all add: Some)
  qed
  have r: "trimesh_split_edge m u v t allow_boundary = (Inr (Some w), m3)"
    by (rule run [OF s1 s2])
  have m'3: "m' = m3" by (simp add: m' r)
  have c1: "vertex m3 = (vertex m)(w \<mapsto> lerp a b t)" by (simp add: m3v m2v m1v)
  have old3: "face m3 j = face m2 j" if "k \<le> j" "j < next_fkey m2" for j
  proof (rule m3old [OF that(2)])
    show "Some j \<noteq> fvu"
    proof
      assume e: "Some j = fvu"
      with tvu have "face m j \<noteq> None" by (auto simp: side_triangle_def)
      from below [OF this] that(1) show False by simp
    qed
  qed
  have del3: "face m3 f = None" if "fuv = Some f" for f
  proof (cases "fvu = Some f")
    case True then show ?thesis by (rule m3del)
  next
    case False
    from that tuv have "face m f \<noteq> None" by (auto simp: side_triangle_def)
    from below [OF this] m2k have "f < next_fkey m2" by simp
    from m3old [OF this] False m2del [OF that] show ?thesis by simp
  qed
  have c2: "side_retriangulated m m3 fuv u v w o1"
    by (rule m2side) (use old3 del3 m3keep in simp_all)
  have c3: "face m3 j = face m j" if "face m j \<noteq> None" "Some j \<noteq> fuv" "Some j \<noteq> fvu" for j
  proof -
    from below [OF that(1)] have jk: "j < k" .
    with m2k have "j < next_fkey m2" by simp
    from m3old [OF this that(3)] m2old [OF jk that(2)] show ?thesis by simp
  qed
  show ?thesis
    unfolding m'3 using r c1 c2 m3side m3uv m3vu c3 by simp
qed

theorem trimesh_split_retriangulates_witness:
  "fst (trimesh_split_edge single_triangle 0 1 (1/2) True) = Inr (Some 3)
   \<and> vertex (snd (trimesh_split_edge single_triangle 0 1 (1/2) True)) 3 = Some (1/2, 0, 0)
   \<and> side_retriangulated single_triangle (snd (trimesh_split_edge single_triangle 0 1 (1/2) True))
        (Some 0) 0 1 3 2
   \<and> side_retriangulated single_triangle (snd (trimesh_split_edge single_triangle 0 1 (1/2) True))
        None 1 0 3 0"
proof -
  have h1: "halfedge single_triangle (0, 1) = Some (Some 0)"
    and h2: "halfedge single_triangle (1, 0) = Some None"
    and h3: "vertex single_triangle 0 = Some (0, 0, 0)"
    and h4: "vertex single_triangle 1 = Some (1, 0, 0)"
    and h5: "side_triangle single_triangle (Some 0) 0 1 2"
    and h6: "side_triangle single_triangle None 1 0 0"
    and h7: "next_key single_triangle \<notin> dom (vertex single_triangle)"
    and h8: "\<forall>f \<in> dom (face single_triangle). f < next_fkey single_triangle"
    and h9: "3 = next_key single_triangle"
    by (simp_all add: single_triangle_def side_triangle_def tri_loop_def)
  show ?thesis
    using trimesh_split_retriangulates [OF _ _ h1 h2 _ _ h3 h4 h5 h6 h7 h8 h9 refl,
        of "1/2" True]
    by (simp add: lerp_def)
qed



section \<open>Properties of traversal and connectivity\<close>

lemma visit_neighbours_eq:
  "\<exists>ns. visit_neighbours ms (q, vis) = (q @ ns, vis @ ns) \<and> set ns = set ms - set vis \<and> distinct ns"
proof (induction ms arbitrary: q vis)
  case Nil
  show ?case by simp
next
  case (Cons n ms)
  show ?case
  proof (cases "n \<in> set vis")
    case True
    with Cons [of q vis] show ?thesis by auto
  next
    case False
    from Cons [of "q @ [n]" "vis @ [n]"] obtain ns
      where "visit_neighbours ms (q @ [n], vis @ [n]) = ((q @ [n]) @ ns, (vis @ [n]) @ ns)"
        and "set ns = set ms - set (vis @ [n])" and "distinct ns" by blast
    with False have "visit_neighbours (n # ms) (q, vis) = (q @ (n # ns), vis @ (n # ns))
        \<and> set (n # ns) = set (n # ms) - set vis \<and> distinct (n # ns)" by auto
    then show ?thesis by blast
  qed
qed

lemma bfs_loop_reach:
  assumes closed: "\<And>u ns. map_of adj u = Some ns \<Longrightarrow> set ns \<subseteq> dom (map_of adj)"
  shows "set q \<subseteq> set vis \<Longrightarrow> set vis \<subseteq> dom (map_of adj) \<Longrightarrow> distinct vis \<Longrightarrow> r \<in> set vis
    \<Longrightarrow> set vis \<subseteq> (adjacency_edges adj)\<^sup>* `` {r}
    \<Longrightarrow> (\<forall>x \<in> set vis - set q. adjacency_edges adj `` {x} \<subseteq> set vis)
    \<Longrightarrow> \<exists>res. bfs_loop adj q vis = Inr res \<and> distinct res \<and> set res = (adjacency_edges adj)\<^sup>* `` {r}"
  using closed
proof (induction adj q vis rule: bfs_loop.induct)
  case (1 adj visited)
  have "(adjacency_edges adj)\<^sup>* `` {r} \<subseteq> set visited"
  proof
    fix y assume "y \<in> (adjacency_edges adj)\<^sup>* `` {r}"
    then have "(r, y) \<in> (adjacency_edges adj)\<^sup>*" by simp
    then show "y \<in> set visited"
      by (induction rule: rtrancl_induct) (use 1 in auto)
  qed
  with 1 show ?case by auto
next
  case (2 adj node tovisit visited)
  from "2.prems" have "node \<in> dom (map_of adj)" by auto
  then obtain nbrs where look: "map_of adj node = Some nbrs" by auto
  from visit_neighbours_eq [of nbrs tovisit visited] obtain ns
    where vn: "visit_neighbours nbrs (tovisit, visited) = (tovisit @ ns, visited @ ns)"
      and ns: "set ns = set nbrs - set visited" and dns: "distinct ns" by blast
  have nb: "adjacency_edges adj `` {node} = set nbrs" using look by (auto simp: adjacency_edges_def)
  have nr: "(r, node) \<in> (adjacency_edges adj)\<^sup>*" using "2.prems" by auto
  have "\<exists>res. bfs_loop adj (tovisit @ ns) (visited @ ns) = Inr res \<and> distinct res
          \<and> set res = (adjacency_edges adj)\<^sup>* `` {r}"
  proof (rule "2.IH" [OF look vn [symmetric]])
    show "set (tovisit @ ns) \<subseteq> set (visited @ ns)" using "2.prems" by auto
    show "set (visited @ ns) \<subseteq> dom (map_of adj)"
      using "2.prems"(2) "2.prems"(7) [OF look] ns by auto
    show "distinct (visited @ ns)" using "2.prems"(3) dns ns by auto
    show "r \<in> set (visited @ ns)" using "2.prems"(4) by simp
    show "set (visited @ ns) \<subseteq> (adjacency_edges adj)\<^sup>* `` {r}"
    proof -
      have "set ns \<subseteq> (adjacency_edges adj)\<^sup>* `` {r}"
      proof
        fix y assume "y \<in> set ns"
        then have "(node, y) \<in> adjacency_edges adj" using ns nb by auto
        with nr show "y \<in> (adjacency_edges adj)\<^sup>* `` {r}" by auto
      qed
      with "2.prems"(5) show ?thesis by simp
    qed
    show "\<forall>x \<in> set (visited @ ns) - set (tovisit @ ns). adjacency_edges adj `` {x} \<subseteq> set (visited @ ns)"
    proof
      fix x assume x: "x \<in> set (visited @ ns) - set (tovisit @ ns)"
      show "adjacency_edges adj `` {x} \<subseteq> set (visited @ ns)"
      proof (cases "x = node")
        case True
        then show ?thesis using nb ns by auto
      next
        case False
        with x have "x \<in> set visited - set (node # tovisit)" by auto
        with "2.prems"(6) have "adjacency_edges adj `` {x} \<subseteq> set visited" by blast
        then show ?thesis by auto
      qed
    qed
    show "\<And>u ns. map_of adj u = Some ns \<Longrightarrow> set ns \<subseteq> dom (map_of adj)"
      by (rule "2.prems"(7))
  qed
  then show ?case by (simp add: look vn)
qed

lemma symmetric_closed:
  assumes "symmetric_adjacency adj" "map_of adj u = Some ns"
  shows "set ns \<subseteq> dom (map_of adj)"
proof
  fix v assume "v \<in> set ns"
  moreover have "(u, ns) \<in> set adj" using assms(2) by (rule map_of_SomeD)
  ultimately have "case map_of adj v of None \<Rightarrow> False | Some ms \<Rightarrow> u \<in> set ms"
    using assms(1) by (auto simp: symmetric_adjacency_def)
  then show "v \<in> dom (map_of adj)" by (auto split: option.splits)
qed

lemma symmetric_edges: "symmetric_adjacency adj \<Longrightarrow> sym (adjacency_edges adj)"
proof (rule symI)
  fix u v assume s: "symmetric_adjacency adj" and "(u, v) \<in> adjacency_edges adj"
  then obtain ns where ns: "map_of adj u = Some ns" "v \<in> set ns" by (auto simp: adjacency_edges_def)
  have "(u, ns) \<in> set adj" using ns(1) by (rule map_of_SomeD)
  with s ns(2) have "case map_of adj v of None \<Rightarrow> False | Some ms \<Rightarrow> u \<in> set ms"
    by (auto simp: symmetric_adjacency_def)
  then show "(v, u) \<in> adjacency_edges adj" by (auto simp: adjacency_edges_def split: option.splits)
qed

lemma reach_in_dom:
  assumes "symmetric_adjacency adj" "r \<in> dom (map_of adj)"
  shows "(adjacency_edges adj)\<^sup>* `` {r} \<subseteq> dom (map_of adj)"
proof
  fix y assume "y \<in> (adjacency_edges adj)\<^sup>* `` {r}"
  then have "(r, y) \<in> (adjacency_edges adj)\<^sup>*" by simp
  then show "y \<in> dom (map_of adj)"
  proof (induction rule: rtrancl_induct)
    case base
    show ?case by (rule assms(2))
  next
    case (step y z)
    then obtain ns where "map_of adj y = Some ns" "z \<in> set ns" by (auto simp: adjacency_edges_def)
    with symmetric_closed [OF assms(1)] show ?case by blast
  qed
qed

lemma reach_sym:
  assumes "symmetric_adjacency adj" "(x, y) \<in> (adjacency_edges adj)\<^sup>*"
  shows "(y, x) \<in> (adjacency_edges adj)\<^sup>*"
  using sym_rtrancl [OF symmetric_edges [OF assms(1)]] assms(2) by (auto dest: symD)

lemma bfs_reach:
  assumes "symmetric_adjacency adj" "r \<in> dom (map_of adj)"
  shows "\<exists>vis. breadth_first_traverse adj r = Inr vis \<and> distinct vis
           \<and> set vis = (adjacency_edges adj)\<^sup>* `` {r}"
  unfolding breadth_first_traverse_def
  by (rule bfs_loop_reach) (use assms symmetric_closed in auto)

lemma components_loop_classes:
  assumes s: "symmetric_adjacency adj"
  shows "distinct tovisit \<Longrightarrow> set tovisit \<subseteq> dom (map_of adj)
    \<Longrightarrow> (\<forall>x \<in> set tovisit. (adjacency_edges adj)\<^sup>* `` {x} \<subseteq> set tovisit)
    \<Longrightarrow> \<exists>new. components_loop pop adj tovisit comps = Inr (comps @ new)
          \<and> distinct (concat new) \<and> set (concat new) = set tovisit
          \<and> (tovisit = [] \<longrightarrow> new = [])
          \<and> (tovisit \<noteq> [] \<longrightarrow> (\<exists>c rest. new = c # rest
                \<and> set c = (adjacency_edges adj)\<^sup>* `` {tovisit ! (pop tovisit mod length tovisit)}
                \<and> (rest = [] \<longleftrightarrow> set tovisit \<subseteq> set c)))"
  using s
proof (induction pop adj tovisit comps rule: components_loop.induct)
  case (1 pop adj tovisit comps)
  show ?case
  proof (cases "tovisit = []")
    case True
    then show ?thesis by (simp add: components_loop.simps)
  next
    case False
    define r where "r = tovisit ! (pop tovisit mod length tovisit)"
    have rin: "r \<in> set tovisit" using False by (simp add: r_def)
    then have rdom: "r \<in> dom (map_of adj)" using "1.prems"(2) by auto
    from bfs_reach [OF "1.prems"(4) rdom] obtain vis
      where bfs: "breadth_first_traverse adj r = Inr vis" and dvis: "distinct vis"
        and svis: "set vis = (adjacency_edges adj)\<^sup>* `` {r}" by blast
    have vsub: "set vis \<subseteq> set tovisit" using "1.prems"(3) rin svis by auto
    have rvis: "r \<in> set vis" using svis by auto
    let ?rest = "filter (\<lambda>x. x \<notin> set vis) (removeAll r tovisit)"
    have srest: "set ?rest = set tovisit - set vis" using rvis by auto
    have "\<exists>new. components_loop pop adj ?rest (comps @ [vis]) = Inr ((comps @ [vis]) @ new)
          \<and> distinct (concat new) \<and> set (concat new) = set ?rest
          \<and> (?rest = [] \<longrightarrow> new = [])
          \<and> (?rest \<noteq> [] \<longrightarrow> (\<exists>c rest. new = c # rest
                \<and> set c = (adjacency_edges adj)\<^sup>* `` {?rest ! (pop ?rest mod length ?rest)}
                \<and> (rest = [] \<longleftrightarrow> set ?rest \<subseteq> set c)))"
    proof (rule "1.IH" [OF False r_def bfs])
      show "distinct ?rest" using "1.prems"(1) by (simp add: distinct_removeAll)
      show "set ?rest \<subseteq> dom (map_of adj)" using "1.prems"(2) by auto
      show "\<forall>x \<in> set ?rest. (adjacency_edges adj)\<^sup>* `` {x} \<subseteq> set ?rest"
      proof (intro ballI subsetI)
        fix x y assume x: "x \<in> set ?rest" and y: "y \<in> (adjacency_edges adj)\<^sup>* `` {x}"
        from x have xt: "x \<in> set tovisit" and xv: "x \<notin> set vis" by auto
        from y have xy: "(x, y) \<in> (adjacency_edges adj)\<^sup>*" by simp
        have "y \<in> set tovisit" using "1.prems"(3) xt y by blast
        moreover have "y \<notin> set vis"
        proof
          assume "y \<in> set vis"
          then have "(r, y) \<in> (adjacency_edges adj)\<^sup>*" using svis by simp
          moreover have "(y, x) \<in> (adjacency_edges adj)\<^sup>*" by (rule reach_sym [OF "1.prems"(4) xy])
          ultimately have "(r, x) \<in> (adjacency_edges adj)\<^sup>*" by (rule rtrancl_trans)
          with svis xv show False by simp
        qed
        ultimately show "y \<in> set ?rest" using srest by simp
      qed
      show "symmetric_adjacency adj" by (rule "1.prems"(4))
    qed
    then obtain new where n1: "components_loop pop adj ?rest (comps @ [vis]) = Inr ((comps @ [vis]) @ new)"
      and n2: "distinct (concat new)" and n3: "set (concat new) = set ?rest"
      and n4: "?rest = [] \<longrightarrow> new = []"
      and n5: "?rest \<noteq> [] \<longrightarrow> new \<noteq> []" by auto
    have step: "components_loop pop adj tovisit comps = Inr (comps @ (vis # new))"
      using False bfs n1 by (subst components_loop.simps) (simp add: r_def [symmetric])
    have "distinct (concat (vis # new))" using dvis n2 n3 srest by auto
    moreover have "set (concat (vis # new)) = set tovisit" using n3 srest vsub by auto
    moreover have "new = [] \<longleftrightarrow> set tovisit \<subseteq> set vis"
      using n4 n5 srest by (metis Diff_eq_empty_iff set_empty)
    ultimately show ?thesis
      using step svis False by (simp add: r_def)
  qed
qed

text \<open>
  C2. For every symmetric adjacency and every way \<open>pop\<close> of taking an element from the
  set, \<open>connected_components\<close> returns, and the components it returns hold every key of
  the adjacency exactly once: their union is the set of the keys, and no vertex occurs in two
  components or twice in one.
\<close>

theorem components_partition:
  assumes "symmetric_adjacency adj"
  shows "\<exists>comps. connected_components pop adj = Inr comps
           \<and> set (concat comps) = set (map fst adj) \<and> distinct (concat comps)"
proof -
  have d: "dom (map_of adj) = set (map fst adj)" by (simp add: dom_map_of_conv_image_fst)
  have "\<exists>new. components_loop pop adj (remdups (map fst adj)) [] = Inr ([] @ new)
          \<and> distinct (concat new) \<and> set (concat new) = set (remdups (map fst adj))
          \<and> (remdups (map fst adj) = [] \<longrightarrow> new = [])
          \<and> (remdups (map fst adj) \<noteq> [] \<longrightarrow> (\<exists>c rest. new = c # rest
                \<and> set c = (adjacency_edges adj)\<^sup>* `` {remdups (map fst adj)
                      ! (pop (remdups (map fst adj)) mod length (remdups (map fst adj)))}
                \<and> (rest = [] \<longleftrightarrow> set (remdups (map fst adj)) \<subseteq> set c)))"
  proof (rule components_loop_classes [OF assms])
    show "\<forall>x \<in> set (remdups (map fst adj)). (adjacency_edges adj)\<^sup>* `` {x} \<subseteq> set (remdups (map fst adj))"
      using reach_in_dom [OF assms] d by auto
  qed (simp_all add: d)
  then show ?thesis by (auto simp: connected_components_def)
qed

theorem components_partition_witness:
  "connected_components (\<lambda>_. 0) two_disjoint_triangles = Inr [[0, 1, 2], [3, 4, 5]]
   \<and> (\<exists>comps. connected_components (\<lambda>_. 0) two_disjoint_triangles = Inr comps
        \<and> set (concat comps) = set (map fst two_disjoint_triangles) \<and> distinct (concat comps))"
proof -
  have h: "symmetric_adjacency two_disjoint_triangles"
    by (simp add: symmetric_adjacency_def two_disjoint_triangles_def)
  have e: "connected_components (\<lambda>_. 0) two_disjoint_triangles = Inr [[0, 1, 2], [3, 4, 5]]"
    by code_simp
  show ?thesis using components_partition [OF h, of "\<lambda>_. 0"] e by simp
qed

text \<open>
  C9. A mesh whose vertex keys are distinct, whose adjacency has exactly the keys of the
  vertex table and is symmetric. On an empty vertex table \<open>mesh_is_connected\<close> returns
  \<open>False\<close>. On a non-empty one both \<open>mesh_is_connected\<close> and \<open>connected_components\<close>
  return, whatever vertex the one and whatever elements the other picks, and the
  predicate is true exactly when there is one component, and exactly when the
  breadth-first traversal from every single vertex visits all vertices.
\<close>

theorem is_connected_iff_one_component:
  assumes dv: "distinct (mesh_vertex M)"
    and keys: "set (map fst (mesh_adjacency M)) = set (mesh_vertex M)"
    and s: "symmetric_adjacency (mesh_adjacency M)"
  shows "(mesh_vertex M = [] \<longrightarrow> mesh_is_connected pick M = Inr False)
       \<and> (mesh_vertex M \<noteq> [] \<longrightarrow>
            (\<exists>b comps. mesh_is_connected pick M = Inr b
               \<and> connected_components pop (mesh_adjacency M) = Inr comps
               \<and> (b \<longleftrightarrow> length comps = 1)
               \<and> (b \<longleftrightarrow> (\<forall>r \<in> set (mesh_vertex M). \<exists>nodes.
                      breadth_first_traverse (mesh_adjacency M) r = Inr nodes
                      \<and> set nodes = set (mesh_vertex M)))))"
proof (intro conjI impI)
  assume "mesh_vertex M = []"
  then show "mesh_is_connected pick M = Inr False" by (simp add: mesh_is_connected_def)
next
  assume ne: "mesh_vertex M \<noteq> []"
  define adj where "adj = mesh_adjacency M"
  define V where "V = mesh_vertex M"
  define R where "R r = (adjacency_edges adj)\<^sup>* `` {r}" for r
  have s': "symmetric_adjacency adj" using s by (simp add: adj_def)
  have d: "dom (map_of adj) = set V"
    using keys by (simp add: dom_map_of_conv_image_fst adj_def V_def)
  have Rsub: "R r \<subseteq> set V" if "r \<in> set V" for r
    using reach_in_dom [OF s', of r] that d by (simp add: R_def)
  have Rall: "R r' = set V" if "r \<in> set V" "r' \<in> set V" "R r = set V" for r r'
  proof
    show "R r' \<subseteq> set V" by (rule Rsub [OF that(2)])
    show "set V \<subseteq> R r'"
    proof
      fix y assume "y \<in> set V"
      then have "y \<in> R r" using that(3) by simp
      then have "(r, y) \<in> (adjacency_edges adj)\<^sup>*" by (simp add: R_def)
      moreover have "r' \<in> R r" using that(2,3) by simp
      then have "(r, r') \<in> (adjacency_edges adj)\<^sup>*" by (simp add: R_def)
      then have "(r', r) \<in> (adjacency_edges adj)\<^sup>*" by (rule reach_sym [OF s'])
      ultimately have "(r', y) \<in> (adjacency_edges adj)\<^sup>*" by (meson rtrancl_trans)
      then show "y \<in> R r'" by (simp add: R_def)
    qed
  qed
  txt \<open>The traversal of the connectivity predicate.\<close>
  define r where "r = get_any_vertex pick V"
  have rV: "r \<in> set V" using ne by (simp add: r_def get_any_vertex_def V_def)
  from bfs_reach [OF s', of r] rV d obtain nodes
    where bfs: "breadth_first_traverse adj r = Inr nodes" and dn: "distinct nodes"
      and sn: "set nodes = R r" by (auto simp: R_def)
  have mc: "mesh_is_connected pick M = Inr (length nodes = length V)"
    using ne bfs by (simp add: mesh_is_connected_def adj_def V_def r_def number_of_vertices_def)
  have "card (R r) = length nodes" using dn sn distinct_card by fastforce
  moreover have "card (set V) = length V" using dv by (simp add: distinct_card V_def)
  moreover have "card (R r) = card (set V) \<longleftrightarrow> R r = set V"
    using Rsub [OF rV] by (metis List.finite_set card_subset_eq)
  ultimately have b: "length nodes = length V \<longleftrightarrow> R r = set V" by simp
  txt \<open>The first component and what is left after it.\<close>
  let ?T = "remdups (map fst adj)"
  have T: "set ?T = set V" "?T \<noteq> []" using keys ne by (auto simp: adj_def V_def)
  have "\<exists>new. components_loop pop adj ?T [] = Inr ([] @ new)
          \<and> distinct (concat new) \<and> set (concat new) = set ?T
          \<and> (?T = [] \<longrightarrow> new = [])
          \<and> (?T \<noteq> [] \<longrightarrow> (\<exists>c rest. new = c # rest
                \<and> set c = (adjacency_edges adj)\<^sup>* `` {?T ! (pop ?T mod length ?T)}
                \<and> (rest = [] \<longleftrightarrow> set ?T \<subseteq> set c)))"
  proof (rule components_loop_classes [OF s'])
    show "\<forall>x \<in> set ?T. (adjacency_edges adj)\<^sup>* `` {x} \<subseteq> set ?T"
      using Rsub T(1) by (auto simp: R_def)
  qed (use T d in simp_all)
  then obtain new where n1: "components_loop pop adj ?T [] = Inr ([] @ new)"
    and n5: "?T \<noteq> [] \<longrightarrow> (\<exists>c rest. new = c # rest
                \<and> set c = (adjacency_edges adj)\<^sup>* `` {?T ! (pop ?T mod length ?T)}
                \<and> (rest = [] \<longleftrightarrow> set ?T \<subseteq> set c))" by blast
  from n5 T(2) obtain c rest where new: "new = c # rest"
    and c0: "set c = (adjacency_edges adj)\<^sup>* `` {?T ! (pop ?T mod length ?T)}"
    and rest0: "rest = [] \<longleftrightarrow> set ?T \<subseteq> set c" by blast
  have cc: "connected_components pop adj = Inr (c # rest)"
    unfolding connected_components_def n1 new by simp
  have c: "set c = R (?T ! (pop ?T mod length ?T))" using c0 by (simp add: R_def)
  have rest: "rest = [] \<longleftrightarrow> set V \<subseteq> set c" using rest0 T(1) by simp
  define r0 where "r0 = ?T ! (pop ?T mod length ?T)"
  have r0V: "r0 \<in> set V" using T nth_mem [of "pop ?T mod length ?T" ?T] by (simp add: r0_def)
  have one: "length (c # rest) = 1 \<longleftrightarrow> R r0 = set V"
    using rest c Rsub [OF r0V] by (auto simp: r0_def)
  have e1: "R r = set V \<longleftrightarrow> R r0 = set V" using Rall rV r0V by blast
  have e2: "R r = set V \<longleftrightarrow> (\<forall>r' \<in> set V. \<exists>nodes.
        breadth_first_traverse adj r' = Inr nodes \<and> set nodes = set V)"
  proof
    assume a: "R r = set V"
    show "\<forall>r' \<in> set V. \<exists>nodes. breadth_first_traverse adj r' = Inr nodes \<and> set nodes = set V"
    proof
      fix r' assume r': "r' \<in> set V"
      from bfs_reach [OF s', of r'] r' d obtain ns
        where "breadth_first_traverse adj r' = Inr ns" "set ns = R r'" by (auto simp: R_def)
      with Rall [OF rV r' a] show "\<exists>nodes. breadth_first_traverse adj r' = Inr nodes \<and> set nodes = set V"
        by auto
    qed
  next
    assume "\<forall>r' \<in> set V. \<exists>nodes. breadth_first_traverse adj r' = Inr nodes \<and> set nodes = set V"
    with rV bfs sn show "R r = set V" by auto
  qed
  show "\<exists>b comps. mesh_is_connected pick M = Inr b
               \<and> connected_components pop (mesh_adjacency M) = Inr comps
               \<and> (b \<longleftrightarrow> length comps = 1)
               \<and> (b \<longleftrightarrow> (\<forall>r \<in> set (mesh_vertex M). \<exists>nodes.
                      breadth_first_traverse (mesh_adjacency M) r = Inr nodes
                      \<and> set nodes = set (mesh_vertex M)))"
    using mc cc b one e1 e2 unfolding adj_def V_def by blast
qed

theorem is_connected_iff_one_component_witness:
  "mesh_is_connected (\<lambda>_. 0) triangle_graph = Inr True
   \<and> connected_components (\<lambda>_. 0) (mesh_adjacency triangle_graph) = Inr [[0, 1, 2]]
   \<and> (\<exists>b comps. mesh_is_connected (\<lambda>_. 0) triangle_graph = Inr b
         \<and> connected_components (\<lambda>_. 0) (mesh_adjacency triangle_graph) = Inr comps
         \<and> (b \<longleftrightarrow> length comps = 1))"
proof -
  have h1: "distinct (mesh_vertex triangle_graph)"
    and h2: "set (map fst (mesh_adjacency triangle_graph)) = set (mesh_vertex triangle_graph)"
    and h3: "symmetric_adjacency (mesh_adjacency triangle_graph)"
    and h4: "mesh_vertex triangle_graph \<noteq> []"
    by (auto simp add: triangle_graph_def symmetric_adjacency_def)
  have e1: "mesh_is_connected (\<lambda>_. 0) triangle_graph = Inr True" by code_simp
  have e2: "connected_components (\<lambda>_. 0) (mesh_adjacency triangle_graph) = Inr [[0, 1, 2]]"
    by code_simp
  from is_connected_iff_one_component [OF h1 h2 h3, of "\<lambda>_. 0" "\<lambda>_. 0"] h4
  have "\<exists>b comps. mesh_is_connected (\<lambda>_. 0) triangle_graph = Inr b
         \<and> connected_components (\<lambda>_. 0) (mesh_adjacency triangle_graph) = Inr comps
         \<and> (b \<longleftrightarrow> length comps = 1)" by blast
  with e1 e2 show ?thesis by blast
qed

text \<open>
  C10. For a mesh and a network with the same vertex table and the same adjacency, and the
  same choice of the vertex to start from, \<open>mesh_is_connected\<close> and
  \<open>network_is_connected\<close> give the same result.
\<close>

theorem is_connected_same:
  assumes "mesh_vertex M = network_vertex N" and "mesh_adjacency M = network_adjacency N"
  shows "mesh_is_connected pick M = network_is_connected pick N"
  unfolding mesh_is_connected_def network_is_connected_def assms by (rule refl)

theorem is_connected_same_witness:
  "mesh_is_connected (\<lambda>_. 0) triangle_graph = network_is_connected (\<lambda>_. 0) triangle_network
   \<and> network_is_connected (\<lambda>_. 0) triangle_network = Inr True"
proof -
  have h1: "mesh_vertex triangle_graph = network_vertex triangle_network"
    and h2: "mesh_adjacency triangle_graph = network_adjacency triangle_network"
    by (simp_all add: triangle_graph_def triangle_network_def)
  have e: "network_is_connected (\<lambda>_. 0) triangle_network = Inr True" by code_simp
  show ?thesis using is_connected_same [OF h1 h2, of "\<lambda>_. 0"] e by simp
qed



section \<open>Properties of the operator builder\<close>

lemma key_index_defined: "k \<in> set keys \<Longrightarrow> \<exists>i. key_index keys k = Some i"
proof -
  assume "k \<in> set keys"
  then have "k \<in> fst ` set (zip keys [0..<length keys])" by (simp add: map_fst_zip flip: set_map)
  then have "k \<in> dom (key_index keys)" by (simp add: key_index_def dom_map_of_conv_image_fst)
  then show ?thesis by auto
qed

lemma laplacian_nbrs_returns:
  "\<forall>n \<in> set nbrs. ki n \<noteq> None \<Longrightarrow> \<exists>t'. laplacian_nbrs ki d r nbrs t = Inr t'"
proof (induction nbrs arbitrary: t)
  case Nil
  show ?case by (rule exI [of _ t]) simp
next
  case (Cons n nbrs t)
  obtain data rows cols where t: "t = (data, rows, cols)" by (rule prod_cases3)
  from Cons.prems obtain c where c: "ki n = Some c" by auto
  from Cons.IH [of "(data @ [d], rows @ [r], cols @ [c])"] Cons.prems show ?case
    by (simp add: t c)
qed

lemma laplacian_rows_outcome:
  assumes ki: "\<forall>k \<in> set V. ki k \<noteq> None"
    and adj: "\<forall>k \<in> set V. \<exists>ns. vertex_neighbors mesh k = Inr ns \<and> set ns \<subseteq> set V"
  shows "set keys \<subseteq> set V \<Longrightarrow>
    ((\<exists>k \<in> set keys. vertex_neighbors mesh k = Inr []) \<longrightarrow>
        laplacian_rows mesh ki keys t = Inl ZeroDivisionError)
    \<and> ((\<forall>k \<in> set keys. vertex_neighbors mesh k \<noteq> Inr []) \<longrightarrow>
        (\<exists>t'. laplacian_rows mesh ki keys t = Inr t'))"
proof (induction keys arbitrary: t)
  case Nil
  have "\<exists>t'. laplacian_rows mesh ki [] t = Inr t'" by (rule exI [of _ t]) simp
  then show ?case by simp
next
  case (Cons k keys t)
  obtain data rows cols where t: "t = (data, rows, cols)" by (rule prod_cases3)
  from Cons.prems have kV: "k \<in> set V" and sub: "set keys \<subseteq> set V" by auto
  from ki kV obtain r where r: "ki k = Some r" by auto
  from adj kV obtain ns where ns: "vertex_neighbors mesh k = Inr ns" "set ns \<subseteq> set V" by blast
  show ?case
  proof (cases "ns = []")
    case True
    then show ?thesis by (simp add: t r ns)
  next
    case False
    have "\<forall>n \<in> set ns. ki n \<noteq> None" using ns(2) ki by auto
    from laplacian_nbrs_returns [OF this] obtain t1
      where t1: "laplacian_nbrs ki (- 1 / real (length ns)) r ns (data @ [1], rows @ [r], cols @ [r])
                  = Inr t1" by blast
    have step: "laplacian_rows mesh ki (k # keys) t = laplacian_rows mesh ki keys t1"
      using False t1 by (simp add: t r ns)
    from Cons.IH [OF sub, of t1] False show ?thesis
      unfolding step by (simp add: ns)
  qed
qed

lemma key_index_total: "\<forall>k \<in> set keys. key_index keys k \<noteq> None"
  using key_index_defined by fastforce

lemma neighbours_total:
  assumes keys: "set (map fst (mesh_adjacency M)) = set (mesh_vertex M)"
    and closed: "\<forall>(u, ns) \<in> set (mesh_adjacency M). set ns \<subseteq> set (mesh_vertex M)"
  shows "\<forall>k \<in> set (mesh_vertex M).
           \<exists>ns. vertex_neighbors M k = Inr ns \<and> set ns \<subseteq> set (mesh_vertex M)"
proof
  fix k assume "k \<in> set (mesh_vertex M)"
  then have "k \<in> dom (map_of (mesh_adjacency M))"
    using keys by (simp add: dom_map_of_conv_image_fst)
  then obtain ns where ns: "map_of (mesh_adjacency M) k = Some ns" by auto
  then have "(k, ns) \<in> set (mesh_adjacency M)" by (rule map_of_SomeD)
  with closed have "set ns \<subseteq> set (mesh_vertex M)" by auto
  with ns show "\<exists>ns. vertex_neighbors M k = Inr ns \<and> set ns \<subseteq> set (mesh_vertex M)"
    by (simp add: vertex_neighbors_def)
qed

text \<open>
  C8, as amended. A mesh whose adjacency has exactly the keys of the vertex table and whose
  neighbours are all vertices. If some vertex has zero neighbours,
  \<open>mesh_laplacian_matrix\<close> raises \<open>ZeroDivisionError\<close> and produces no matrix, whatever the
  library's constructor does: the zero-degree case is not guarded.
\<close>

theorem laplacian_zero_degree_raises:
  assumes keys: "set (map fst (mesh_adjacency M)) = set (mesh_vertex M)"
    and closed: "\<forall>(u, ns) \<in> set (mesh_adjacency M). set ns \<subseteq> set (mesh_vertex M)"
    and zero: "k \<in> set (mesh_vertex M)" "vertex_neighbors M k = Inr []"
  shows "mesh_laplacian_matrix coo M = Inl ZeroDivisionError"
proof -
  have "laplacian_rows M (key_index (mesh_vertex M)) (mesh_vertex M) ([], [], [])
          = Inl ZeroDivisionError"
    using laplacian_rows_outcome [OF key_index_total neighbours_total [OF keys closed] subset_refl,
        of "([], [], [])"] zero
    by blast
  then show ?thesis by (simp add: mesh_laplacian_matrix_def)
qed

theorem laplacian_zero_degree_raises_witness:
  "mesh_laplacian_matrix coo_triplets edge_and_isolated_vertex = Inl ZeroDivisionError"
proof -
  have h1: "set (map fst (mesh_adjacency edge_and_isolated_vertex)) = set (mesh_vertex edge_and_isolated_vertex)"
    and h2: "\<forall>(u, ns) \<in> set (mesh_adjacency edge_and_isolated_vertex).
               set ns \<subseteq> set (mesh_vertex edge_and_isolated_vertex)"
    and h3: "2 \<in> set (mesh_vertex edge_and_isolated_vertex)"
    and h4: "vertex_neighbors edge_and_isolated_vertex 2 = Inr []"
    by (auto simp: edge_and_isolated_vertex_def vertex_neighbors_def)
  show ?thesis by (rule laplacian_zero_degree_raises [OF h1 h2 h3 h4])
qed

text \<open>
  C8 as stated fails: on the mesh of a single vertex without neighbours the division by the
  number of neighbours raises.
\<close>

theorem laplacian_isolated_vertex_raises:
  "mesh_laplacian_matrix coo_triplets isolated_vertex = Inl ZeroDivisionError"
  by (simp add: mesh_laplacian_matrix_def isolated_vertex_def key_index_def vertex_neighbors_def)

text \<open>
  Beyond the zero-degree case: \<open>mesh_laplacian_matrix\<close> never returns a matrix. When every
  vertex has a neighbour and the library's constructor returns, the outcome is the
  \<open>NameError\<close> of the last line.
\<close>

lemma laplacian_never_returns: "mesh_laplacian_matrix coo M \<noteq> Inr L"
  by (simp add: mesh_laplacian_matrix_def return_matrix_def split: sum.splits)

lemma laplacian_name_error:
  assumes keys: "set (map fst (mesh_adjacency M)) = set (mesh_vertex M)"
    and closed: "\<forall>(u, ns) \<in> set (mesh_adjacency M). set ns \<subseteq> set (mesh_vertex M)"
    and degrees: "\<forall>k \<in> set (mesh_vertex M). vertex_neighbors M k \<noteq> Inr []"
    and lib: "\<And>t. \<exists>L. coo t = Inr L"
  shows "mesh_laplacian_matrix coo M = Inl NameError"
proof -
  from laplacian_rows_outcome [OF key_index_total neighbours_total [OF keys closed] subset_refl,
        of "([], [], [])"] degrees
  obtain t where t: "laplacian_rows M (key_index (mesh_vertex M)) (mesh_vertex M) ([], [], [])
          = Inr t" by blast
  from lib [of t] obtain L where "coo t = Inr L" by blast
  with t show ?thesis by (simp add: mesh_laplacian_matrix_def return_matrix_def)
qed

lemma cotangents_raise: "trimesh_edge_cotangents mesh u v = Inl TypeError"
  by (simp add: trimesh_edge_cotangents_def trimesh_edge_cotangent_def)

lemma cotangent_laplacian_raises:
  assumes "edges \<noteq> []"
  shows "trimesh_cotangent_laplacian_matrix mesh vertices edges = Inl TypeError"
proof -
  from assms obtain u v es where "edges = (u, v) # es" by (cases edges) auto
  then show ?thesis
    by (simp add: trimesh_cotangent_laplacian_matrix_def cotangents_raise)
qed

text \<open>
  C4. \<open>trimesh_cotangent_laplacian_matrix\<close> is to return the matrix with half the sums
  of the opposite cotangents off the diagonal and rows that sum to zero. On the single
  triangle, with its three edges, the function returns no matrix: the first
  edge reaches \<open>trimesh_edge_cotangents\<close>, whose call of \<open>trimesh_edge_cotangent\<close> with two
  arguments raises \<open>TypeError\<close>.
\<close>

theorem cotangent_laplacian_single_triangle:
  "trimesh_cotangent_laplacian_matrix single_triangle [0, 1, 2] [(0, 1), (1, 2), (2, 0)]
     = Inl TypeError"
  by (rule cotangent_laplacian_raises) simp


end
